theory Spec2Isabelle
  imports Complex_Main
begin

section \<open>The fractal heightmap generator of \<^verbatim>\<open>experiments/fractal.py\<close>\<close>

text \<open>
  A shallow embedding of \<^verbatim>\<open>CoastlineGenerator\<close>. Python integers are \<open>int\<close>;
  the \<^verbatim>\<open>float64\<close> elevations are idealised as \<open>real\<close>, except for the one
  division whose divisor can be zero (the normalisation), whose numpy results
  \<^verbatim>\<open>nan\<close> and \<^verbatim>\<open>inf\<close> are values of \<open>npfloat\<close>. The process-wide generator of
  the \<^verbatim>\<open>random\<close> module is a stream of draws and the number consumed so far.
  Exceptions are values of \<open>error\<close>, and a raising computation is \<open>Inl\<close>.
\<close>

subsection \<open>Errors\<close>

datatype error = IndexError | ValueError | ZeroDivisionError | OverflowError

definition ebind :: "error + 'a \<Rightarrow> ('a \<Rightarrow> error + 'b) \<Rightarrow> error + 'b" where
  "ebind m f = (case m of Inl e \<Rightarrow> Inl e | Inr v \<Rightarrow> f v)"

text \<open>A \<^verbatim>\<open>for\<close> loop whose body may raise: the first exception ends the loop.\<close>

fun for_each :: "('a \<Rightarrow> 's \<Rightarrow> error + 's) \<Rightarrow> 'a list \<Rightarrow> 's \<Rightarrow> error + 's" where
  "for_each body [] s = Inr s"
| "for_each body (a # as) s =
     (case body a s of Inl e \<Rightarrow> Inl e | Inr s' \<Rightarrow> for_each body as s')"

text \<open>
  \<^verbatim>\<open>range(start, stop, step)\<close> for a positive step, as the iterator produces it.
  Every step the generator passes is positive (\<^verbatim>\<open>step_size > 1\<close>, so
  \<^verbatim>\<open>half_step >= 1\<close>); a step that is not positive gives the empty list here.
\<close>

function py_range :: "int \<Rightarrow> int \<Rightarrow> int \<Rightarrow> int list" where
  "py_range start stop step =
     (if 0 < step \<and> start < stop then start # py_range (start + step) stop step else [])"
  by pat_completeness auto
termination
  by (relation "measure (\<lambda>(start, stop, step). nat (stop - start))") auto

subsection \<open>The numpy array\<close>

text \<open>
  numpy indexing along an axis of length \<open>n\<close>: an index in \<open>[-n, n)\<close> is accepted,
  a negative one counts from the end, any other raises \<^verbatim>\<open>IndexError\<close>.
\<close>

definition np_index :: "nat \<Rightarrow> int \<Rightarrow> error + nat" where
  "np_index n i =
     (if 0 \<le> i \<and> i < int n then Inr (nat i)
      else if - int n \<le> i \<and> i < 0 then Inr (nat (i + int n))
      else Inl IndexError)"

definition getitem :: "real list list \<Rightarrow> int \<Rightarrow> int \<Rightarrow> error + real" where
  "getitem hm y x =
     ebind (np_index (length hm) y) (\<lambda>i.
     ebind (np_index (length (hm ! i)) x) (\<lambda>j.
     Inr (hm ! i ! j)))"

definition setitem :: "real list list \<Rightarrow> int \<Rightarrow> int \<Rightarrow> real \<Rightarrow> error + real list list" where
  "setitem hm y x v =
     ebind (np_index (length hm) y) (\<lambda>i.
     ebind (np_index (length (hm ! i)) x) (\<lambda>j.
     Inr (hm[i := (hm ! i)[j := v]])))"

text \<open>\<^verbatim>\<open>np.zeros((n, n))\<close>: a negative dimension raises \<^verbatim>\<open>ValueError\<close>.\<close>

definition np_zeros :: "int \<Rightarrow> error + real list list" where
  "np_zeros n =
     (if n < 0 then Inl ValueError
      else Inr (replicate (nat n) (replicate (nat n) 0)))"

text \<open>
  \<^verbatim>\<open>np.min\<close> and \<^verbatim>\<open>np.max\<close> over all cells; on an array with no cell they raise
  \<^verbatim>\<open>ValueError\<close>.
\<close>

definition np_min :: "real list list \<Rightarrow> error + real" where
  "np_min hm = (case concat hm of [] \<Rightarrow> Inl ValueError | v # vs \<Rightarrow> Inr (fold min vs v))"

definition np_max :: "real list list \<Rightarrow> error + real" where
  "np_max hm = (case concat hm of [] \<Rightarrow> Inl ValueError | v # vs \<Rightarrow> Inr (fold max vs v))"

text \<open>
  The result of a \<^verbatim>\<open>float64\<close> true division: numpy does not raise on a zero
  divisor, it warns and yields \<^verbatim>\<open>nan\<close> for \<open>0/0\<close> and a signed infinity otherwise.
\<close>

datatype npfloat = Finite real | PosInf | NegInf | NaN

definition np_divide :: "real \<Rightarrow> real \<Rightarrow> npfloat" where
  "np_divide a b =
     (if b \<noteq> 0 then Finite (a / b)
      else if a = 0 then NaN
      else if 0 < a then PosInf else NegInf)"

text \<open>The comparison \<^verbatim>\<open><=\<close> of two such values: false as soon as one is \<^verbatim>\<open>nan\<close>.\<close>

fun np_le :: "npfloat \<Rightarrow> npfloat \<Rightarrow> bool" where
  "np_le NaN _ = False"
| "np_le _ NaN = False"
| "np_le NegInf _ = True"
| "np_le _ PosInf = True"
| "np_le (Finite a) (Finite b) = (a \<le> b)"
| "np_le _ _ = False"

subsection \<open>The generator and the random module\<close>

record generator =
  size_g :: int
  heightmap :: "real list list"
  roughness :: real
  sea_level :: real

record rand =
  draws :: "nat \<Rightarrow> real"
  consumed :: nat

text \<open>\<^verbatim>\<open>random.random()\<close>: the next draw, and the generator advanced by one.\<close>

definition random_random :: "rand \<Rightarrow> real \<times> rand" where
  "random_random rs = (draws rs (consumed rs), rs\<lparr>consumed := Suc (consumed rs)\<rparr>)"

text \<open>\<^verbatim>\<open>CoastlineGenerator.__init__\<close>: no check of \<^verbatim>\<open>size\<close> beyond what numpy does.\<close>

definition init :: "int \<Rightarrow> error + generator" where
  "init sz =
     ebind (np_zeros sz) (\<lambda>hm.
     Inr \<lparr>size_g = sz, heightmap = hm, roughness = 6 / 10, sea_level = 4 / 10\<rparr>)"

text \<open>\<^verbatim>\<open>_get_random_offset\<close>.\<close>

definition get_random_offset :: "generator \<Rightarrow> real \<Rightarrow> rand \<Rightarrow> real \<times> rand" where
  "get_random_offset g current_range rs =
     (case random_random rs of (u, rs') \<Rightarrow> ((u - 1 / 2) * current_range * roughness g, rs'))"

text \<open>An assignment \<^verbatim>\<open>self.heightmap[y, x] = v\<close>.\<close>

definition store :: "int \<Rightarrow> int \<Rightarrow> real \<Rightarrow> generator \<Rightarrow> error + generator" where
  "store y x v g = ebind (setitem (heightmap g) y x v) (\<lambda>hm. Inr (g\<lparr>heightmap := hm\<rparr>))"

text \<open>The four corner assignments that open \<^verbatim>\<open>diamond_square\<close>, in the source's order.\<close>

definition corner_indices :: "(int \<times> int) list" where
  "corner_indices = [(0, 0), (0, -1), (-1, 0), (-1, -1)]"

definition init_corner :: "int \<times> int \<Rightarrow> generator \<times> rand \<Rightarrow> error + generator \<times> rand" where
  "init_corner c st =
     (case c of (y, x) \<Rightarrow> case st of (g, rs) \<Rightarrow>
      case random_random rs of (u, rs') \<Rightarrow>
      ebind (store y x u g) (\<lambda>g'. Inr (g', rs')))"

definition init_corners :: "generator \<times> rand \<Rightarrow> error + generator \<times> rand" where
  "init_corners st = for_each init_corner corner_indices st"

subsection \<open>Diamond step\<close>

text \<open>The cells \<open>(y, x)\<close> the two nested loops of the diamond step run over.\<close>

definition diamond_coords :: "int \<Rightarrow> int \<Rightarrow> (int \<times> int) list" where
  "diamond_coords sz step_size =
     [(y, x). y \<leftarrow> py_range 0 (sz - 1) step_size, x \<leftarrow> py_range 0 (sz - 1) step_size]"

definition diamond_point ::
  "int \<Rightarrow> int \<Rightarrow> real \<Rightarrow> int \<times> int \<Rightarrow> generator \<times> rand \<Rightarrow> error + generator \<times> rand" where
  "diamond_point step_size half_step range_size c st =
     (case c of (y, x) \<Rightarrow> case st of (g, rs) \<Rightarrow>
      ebind (getitem (heightmap g) y x) (\<lambda>a.
      ebind (getitem (heightmap g) (y + step_size) x) (\<lambda>b.
      ebind (getitem (heightmap g) y (x + step_size)) (\<lambda>c.
      ebind (getitem (heightmap g) (y + step_size) (x + step_size)) (\<lambda>d.
      let avg = (a + b + c + d) / 4 in
      case get_random_offset g range_size rs of (off, rs') \<Rightarrow>
      ebind (store (y + half_step) (x + half_step) (avg + off) g) (\<lambda>g'.
      Inr (g', rs')))))))"

definition diamond_step ::
  "int \<Rightarrow> int \<Rightarrow> real \<Rightarrow> generator \<times> rand \<Rightarrow> error + generator \<times> rand" where
  "diamond_step step_size half_step range_size st =
     for_each (diamond_point step_size half_step range_size)
       (diamond_coords (size_g (fst st)) step_size) st"

subsection \<open>Square step\<close>

definition square_coords :: "int \<Rightarrow> int \<Rightarrow> int \<Rightarrow> (int \<times> int) list" where
  "square_coords sz step_size half_step =
     [(y, x). y \<leftarrow> py_range 0 sz half_step,
              x \<leftarrow> py_range ((y + half_step) mod step_size) sz step_size]"

text \<open>
  One of the four bounds-checked directions: when the condition holds the neighbour is
  read and added to \<^verbatim>\<open>avg\<close>, and \<^verbatim>\<open>count\<close> goes up by one.
\<close>

definition add_neighbor ::
  "generator \<Rightarrow> bool \<Rightarrow> int \<Rightarrow> int \<Rightarrow> real \<times> int \<Rightarrow> error + real \<times> int" where
  "add_neighbor g cond y x acc =
     (case acc of (avg, count) \<Rightarrow>
      if cond then ebind (getitem (heightmap g) y x) (\<lambda>v. Inr (avg + v, count + 1))
      else Inr (avg, count))"

text \<open>The sum and the count of the neighbours, after the four checks.\<close>

definition square_neighbors :: "generator \<Rightarrow> int \<Rightarrow> int \<Rightarrow> int \<Rightarrow> error + real \<times> int" where
  "square_neighbors g half_step y x =
     ebind (add_neighbor g (y \<ge> half_step) (y - half_step) x (0, 0)) (\<lambda>acc.
     ebind (add_neighbor g (y + half_step < size_g g) (y + half_step) x acc) (\<lambda>acc.
     ebind (add_neighbor g (x \<ge> half_step) y (x - half_step) acc) (\<lambda>acc.
     add_neighbor g (x + half_step < size_g g) y (x + half_step) acc)))"

text \<open>
  \<^verbatim>\<open>avg /= count\<close>: with no neighbour both are the Python integer 0, and the division
  raises \<^verbatim>\<open>ZeroDivisionError\<close>.
\<close>

definition square_point ::
  "int \<Rightarrow> real \<Rightarrow> int \<times> int \<Rightarrow> generator \<times> rand \<Rightarrow> error + generator \<times> rand" where
  "square_point half_step range_size c st =
     (case c of (y, x) \<Rightarrow> case st of (g, rs) \<Rightarrow>
      ebind (square_neighbors g half_step y x) (\<lambda>(avg, count).
      if count = 0 then Inl ZeroDivisionError
      else let avg = avg / real_of_int count in
      case get_random_offset g range_size rs of (off, rs') \<Rightarrow>
      ebind (store y x (avg + off) g) (\<lambda>g'.
      Inr (g', rs'))))"

definition square_step ::
  "int \<Rightarrow> int \<Rightarrow> real \<Rightarrow> generator \<times> rand \<Rightarrow> error + generator \<times> rand" where
  "square_step step_size half_step range_size st =
     for_each (square_point half_step range_size)
       (square_coords (size_g (fst st)) step_size half_step) st"

subsection \<open>The main loop\<close>

text \<open>
  \<^verbatim>\<open>while step_size > 1\<close>. The result carries the two loop variables as they are when
  the loop is left.
\<close>

function main_loop ::
  "int \<Rightarrow> real \<Rightarrow> generator \<times> rand \<Rightarrow> error + int \<times> real \<times> generator \<times> rand" where
  "main_loop step_size range_size st =
     (if step_size > 1 then
        (case diamond_step step_size (step_size div 2) range_size st of
           Inl e \<Rightarrow> Inl e
         | Inr st1 \<Rightarrow>
             (case square_step step_size (step_size div 2) range_size st1 of
                Inl e \<Rightarrow> Inl e
              | Inr st2 \<Rightarrow> main_loop (step_size div 2) (range_size * (1 / 2)) st2))
      else Inr (step_size, range_size, st))"
  by pat_completeness auto
termination
  by (relation "measure (\<lambda>(step_size, range_size, st). nat step_size)") auto

definition diamond_square :: "generator \<Rightarrow> rand \<Rightarrow> error + generator \<times> rand" where
  "diamond_square g rs =
     ebind (init_corners (g, rs)) (\<lambda>st.
     ebind (main_loop (size_g g - 1) 1 st) (\<lambda>(step_size, range_size, st'). Inr st'))"

text \<open>The values of \<^verbatim>\<open>step_size\<close> with which the loop body runs, first to last.\<close>

function step_sizes :: "int \<Rightarrow> int list" where
  "step_sizes s = (if s > 1 then s # step_sizes (s div 2) else [])"
  by pat_completeness auto
termination
  by (relation "measure nat") auto


function schedule :: "int \<Rightarrow> real \<Rightarrow> (int \<times> real) list" where
  "schedule s r = (if s > 1 then (s, r) # schedule (s div 2) (r * (1 / 2)) else [])"
  by pat_completeness auto
termination
  by (relation "measure (\<lambda>(s, r). nat s)") auto

subsection \<open>Normalisation and colour mapping\<close>

text \<open>
  \<^verbatim>\<open>(self.heightmap - min_val) / (max_val - min_val)\<close>: a new array, every cell divided
  by the same divisor.
\<close>

definition normalize_grid :: "real list list \<Rightarrow> error + npfloat list list" where
  "normalize_grid hm =
     ebind (np_min hm) (\<lambda>min_val.
     ebind (np_max hm) (\<lambda>max_val.
     Inr (map (map (\<lambda>v. np_divide (v - min_val) (max_val - min_val))) hm)))"

text \<open>\<^verbatim>\<open>int(v)\<close> on a finite float truncates towards zero.\<close>

definition py_int :: "real \<Rightarrow> int" where
  "py_int v = (if 0 \<le> v then \<lfloor>v\<rfloor> else \<lceil>v\<rceil>)"

text \<open>
  The colour of one cell. A comparison with \<^verbatim>\<open>nan\<close> is false, so \<^verbatim>\<open>nan\<close> takes the
  land branch, where \<^verbatim>\<open>int(nan)\<close> raises \<^verbatim>\<open>ValueError\<close>; \<^verbatim>\<open>int\<close> of an infinity
  raises \<^verbatim>\<open>OverflowError\<close>.
\<close>

fun color :: "real \<Rightarrow> npfloat \<Rightarrow> error + int \<times> int \<times> int" where
  "color sl NaN = Inl ValueError"
| "color sl PosInf = Inl OverflowError"
| "color sl NegInf = Inl OverflowError"
| "color sl (Finite height) =
     (if height < sl then
        let depth_factor = height / sl;
            blue = py_int (150 + 105 * depth_factor);
            green = py_int (150 + 75 * depth_factor)
        in Inr (0, green, blue)
      else
        let land_factor = (height - sl) / (1 - sl);
            green = py_int (180 - 60 * land_factor)
        in Inr (100 + py_int (50 * land_factor), green, 50))"

text \<open>A list built cell by cell, stopping at the first exception.\<close>

fun map_result :: "('a \<Rightarrow> error + 'b) \<Rightarrow> 'a list \<Rightarrow> error + 'b list" where
  "map_result f [] = Inr []"
| "map_result f (a # as) =
     (case f a of Inl e \<Rightarrow> Inl e
      | Inr b \<Rightarrow> (case map_result f as of Inl e \<Rightarrow> Inl e | Inr bs \<Rightarrow> Inr (b # bs)))"

definition color_map :: "real \<Rightarrow> npfloat list list \<Rightarrow> error + (int \<times> int \<times> int) list list" where
  "color_map sl hm = map_result (map_result (color sl)) hm"

text \<open>
  \<^verbatim>\<open>generate_coastline\<close>: the normalised array that \<^verbatim>\<open>self.heightmap\<close> is rebound to,
  the image returned, and the random module's state.
\<close>

definition generate_coastline ::
  "generator \<Rightarrow> rand \<Rightarrow> error + npfloat list list \<times> (int \<times> int \<times> int) list list \<times> rand" where
  "generate_coastline g rs =
     ebind (diamond_square g rs) (\<lambda>(g1, rs1).
     ebind (normalize_grid (heightmap g1)) (\<lambda>hm.
     ebind (color_map (sea_level g1) hm) (\<lambda>image.
     Inr (hm, image, rs1))))"

text \<open>\<^verbatim>\<open>create_coastline_image\<close>, without the write of the file.\<close>

definition create_coastline_image ::
  "int \<Rightarrow> rand \<Rightarrow> error + npfloat list list \<times> (int \<times> int \<times> int) list list \<times> rand" where
  "create_coastline_image sz rs = ebind (init sz) (\<lambda>g. generate_coastline g rs)"

subsection \<open>Well-formed grids\<close>

text \<open>A square array of side \<open>sz\<close>: \<open>sz\<close> rows of \<open>sz\<close> cells each.\<close>

definition shape :: "int \<Rightarrow> 'a list list \<Rightarrow> bool" where
  "shape sz hm \<longleftrightarrow> int (length hm) = sz \<and> (\<forall>row \<in> set hm. int (length row) = sz)"

text \<open>The generator's \<^verbatim>\<open>size\<close> and its array agree, as \<^verbatim>\<open>__init__\<close> leaves them.\<close>

definition grid_ok :: "int \<Rightarrow> generator \<times> rand \<Rightarrow> bool" where
  "grid_ok sz st \<longleftrightarrow> size_g (fst st) = sz \<and> shape sz (heightmap (fst st))"

text \<open>The value of a cell, and the generator after an assignment to a cell in range.\<close>

definition cell :: "generator \<Rightarrow> int \<times> int \<Rightarrow> real" where
  "cell g c = heightmap g ! nat (fst c) ! nat (snd c)"

definition put :: "generator \<Rightarrow> int \<times> int \<Rightarrow> real \<Rightarrow> generator" where
  "put g c v =
     g\<lparr>heightmap := (heightmap g)[nat (fst c) := (heightmap g ! nat (fst c))[nat (snd c) := v]]\<rparr>"

text \<open>
  The four corner cells of a grid of side \<open>sz\<close>, in the order of the four assignments, and
  the cells that the diamond step of a pass assigns (the square step assigns the cells
  of \<open>square_coords\<close>).
\<close>

definition corner_cells :: "int \<Rightarrow> (int \<times> int) list" where
  "corner_cells sz = [(0, 0), (0, sz - 1), (sz - 1, 0), (sz - 1, sz - 1)]"

definition diamond_targets :: "int \<Rightarrow> int \<Rightarrow> (int \<times> int) list" where
  "diamond_targets sz step_size =
     map (\<lambda>(y, x). (y + step_size div 2, x + step_size div 2)) (diamond_coords sz step_size)"

text \<open>
  Two states of the random module that yield the same next \<open>k\<close> draws, two states of a run
  that differ at most in the other draws, and what a caller sees of a run: the
  exception, or the normalised array and the image.
\<close>

definition same_draws :: "nat \<Rightarrow> rand \<Rightarrow> rand \<Rightarrow> bool" where
  "same_draws k r r' \<longleftrightarrow> (\<forall>i<k. draws r (consumed r + i) = draws r' (consumed r' + i))"

definition same_state :: "nat \<Rightarrow> generator \<times> rand \<Rightarrow> generator \<times> rand \<Rightarrow> bool" where
  "same_state k st st' \<longleftrightarrow> fst st = fst st' \<and> same_draws k (snd st) (snd st')"




text \<open>A cell of the normalised array that holds a number of the interval \<open>[0, 1]\<close>.\<close>

fun in_unit :: "npfloat \<Rightarrow> bool" where
  "in_unit (Finite v) \<longleftrightarrow> 0 \<le> v \<and> v \<le> 1"
| "in_unit _ \<longleftrightarrow> False"

subsection \<open>Some states of the random module\<close>

text \<open>Every draw is 0.5: every offset is then zero.\<close>

definition flat_rand :: rand where
  "flat_rand = \<lparr>draws = (\<lambda>i. 1 / 2), consumed = 0\<rparr>"

text \<open>The first draw is 0, respectively 0.75, and every later one 0.5.\<close>

definition low_rand :: rand where
  "low_rand = \<lparr>draws = (\<lambda>i. if i = 0 then 0 else 1 / 2), consumed = 0\<rparr>"


text \<open>The generator that \<^verbatim>\<open>CoastlineGenerator(3)\<close> builds.\<close>

definition gen3 :: generator where
  "gen3 = \<lparr>size_g = 3, heightmap = [[0, 0, 0], [0, 0, 0], [0, 0, 0]],
            roughness = 6 / 10, sea_level = 4 / 10\<rparr>"

text \<open>
  A generator of size 5 in the middle of a run: the cell \<open>(y, x)\<close> holds \<open>5 * y + x + 1\<close>, so
  that no two cells hold the same value.
\<close>

definition ramp5 :: generator where
  "ramp5 = \<lparr>size_g = 5,
             heightmap = [[1, 2, 3, 4, 5], [6, 7, 8, 9, 10], [11, 12, 13, 14, 15],
                          [16, 17, 18, 19, 20], [21, 22, 23, 24, 25]],
             roughness = 6 / 10, sea_level = 4 / 10\<rparr>"


section \<open>Facts about the model\<close>

subsection \<open>Ranges, indexing and loops\<close>

declare py_range.simps [simp del] main_loop.simps [simp del] step_sizes.simps [simp del] schedule.simps [simp del]

lemma ebind_Inr [simp]: "ebind (Inr v) f = f v"
  by (simp add: ebind_def)

lemma ebind_Inl [simp]: "ebind (Inl e) f = Inl e"
  by (simp add: ebind_def)

lemma py_range_mem:
  "y \<in> set (py_range a b s) \<Longrightarrow> a \<le> y \<and> y < b \<and> 0 < s \<and> s dvd (y - a)"
proof (induction a b s rule: py_range.induct)
  case (1 start stop step)
  show ?case
  proof (cases "0 < step \<and> start < stop")
    case True
    with "1.prems" have "y = start \<or> y \<in> set (py_range (start + step) stop step)"
      by (simp add: py_range.simps [of start stop step])
    then show ?thesis
    proof
      assume "y = start"
      with True show ?thesis by simp
    next
      assume "y \<in> set (py_range (start + step) stop step)"
      with "1.IH" True have h: "start + step \<le> y \<and> y < stop \<and> step dvd (y - (start + step))"
        by blast
      have "step dvd (y - (start + step)) + step"
        by (rule dvd_add) (use h in simp_all)
      moreover have "(y - (start + step)) + step = y - start" by simp
      ultimately have "step dvd (y - start)" by metis
      with h True show ?thesis by simp
    qed
  next
    case False
    with "1.prems" show ?thesis by (simp add: py_range.simps [of start stop step])
  qed
qed






lemma np_index_in: "0 \<le> i \<Longrightarrow> i < int n \<Longrightarrow> np_index n i = Inr (nat i)"
  by (simp add: np_index_def)

lemma shape_row: "shape sz hm \<Longrightarrow> 0 \<le> y \<Longrightarrow> y < sz \<Longrightarrow> int (length (hm ! nat y)) = sz"
  by (auto simp: shape_def)

lemma getitem_in:
  assumes "shape sz hm" "0 \<le> y" "y < sz" "0 \<le> x" "x < sz"
  shows "getitem hm y x = Inr (hm ! nat y ! nat x)"
proof -
  have l: "int (length hm) = sz" using assms(1) by (simp add: shape_def)
  have r: "int (length (hm ! nat y)) = sz" using assms by (simp add: shape_row)
  have "np_index (length hm) y = Inr (nat y)" using l assms by (simp add: np_index_in)
  moreover have "np_index (length (hm ! nat y)) x = Inr (nat x)" using r assms by (simp add: np_index_in)
  ultimately show ?thesis by (simp add: getitem_def)
qed

lemma shape_update:
  assumes "shape sz hm"
  shows "shape sz (hm[i := (hm ! i)[j := v]])"
proof (cases "i < length hm")
  case True
  have len: "int (length ((hm ! i)[j := v])) = sz"
    using assms True by (simp add: shape_def)
  show ?thesis
    unfolding shape_def
  proof (intro conjI ballI)
    show "int (length (hm[i := (hm ! i)[j := v]])) = sz"
      using assms by (simp add: shape_def)
  next
    fix row assume "row \<in> set (hm[i := (hm ! i)[j := v]])"
    then have "row = (hm ! i)[j := v] \<or> row \<in> set hm"
      using set_update_subset_insert [of hm i "(hm ! i)[j := v]"] by blast
    then show "int (length row) = sz"
    proof
      assume "row = (hm ! i)[j := v]"
      with len show ?thesis by simp
    next
      assume "row \<in> set hm"
      with assms show ?thesis unfolding shape_def by blast
    qed
  qed
next
  case False
  then have "length hm \<le> i" by simp
  then have "hm[i := (hm ! i)[j := v]] = hm" by (rule list_update_beyond)
  with assms show ?thesis by simp
qed

lemma setitem_in:
  assumes "shape sz hm" "0 \<le> y" "y < sz" "0 \<le> x" "x < sz"
  shows "setitem hm y x v = Inr (hm[nat y := (hm ! nat y)[nat x := v]])"
proof -
  have l: "int (length hm) = sz" using assms(1) by (simp add: shape_def)
  have r: "int (length (hm ! nat y)) = sz" using assms by (simp add: shape_row)
  have "np_index (length hm) y = Inr (nat y)" using l assms by (simp add: np_index_in)
  moreover have "np_index (length (hm ! nat y)) x = Inr (nat x)" using r assms by (simp add: np_index_in)
  ultimately show ?thesis by (simp add: setitem_def)
qed

lemma store_in:
  assumes "shape sz (heightmap g)" "0 \<le> y" "y < sz" "0 \<le> x" "x < sz"
  shows "store y x v g = Inr (g\<lparr>heightmap := (heightmap g)[nat y := (heightmap g ! nat y)[nat x := v]]\<rparr>)"
  using setitem_in [OF assms] by (simp add: store_def)






lemma for_each_inv:
  assumes "I s" and "\<And>a s. a \<in> set xs \<Longrightarrow> I s \<Longrightarrow> \<exists>s'. body a s = Inr s' \<and> I s'"
  shows "\<exists>s'. for_each body xs s = Inr s' \<and> I s'"
  using assms
proof (induction xs arbitrary: s)
  case Nil
  then show ?case by simp
next
  case (Cons a xs)
  from Cons.prems obtain s1 where s1: "body a s = Inr s1" "I s1" by (meson list.set_intros(1))
  have "\<exists>s'. for_each body xs s1 = Inr s' \<and> I s'"
    using Cons.IH [OF s1(2)] Cons.prems(2) by (meson list.set_intros(2))
  with s1 show ?case by simp
qed

subsection \<open>The diamond step stays in the grid\<close>

lemma lattice_next:
  fixes s a b :: int
  assumes "0 < s" "s dvd a" "s dvd b" "a < b"
  shows "a + s \<le> b"
proof -
  from assms(2) obtain k where k: "a = s * k" by (auto elim: dvdE)
  from assms(3) obtain m where m: "b = s * m" by (auto elim: dvdE)
  from assms(1,4) k m have "k < m" by (simp add: mult_less_cancel_left_pos)
  then have "k + 1 \<le> m" by simp
  with assms(1) have "s * (k + 1) \<le> s * m" by (simp add: mult_le_cancel_left_pos)
  with k m show ?thesis by (simp add: algebra_simps)
qed

lemma py_range_mem0:
  assumes "y \<in> set (py_range 0 b s)"
  shows "0 \<le> y \<and> y < b \<and> 0 < s \<and> s dvd y"
  using py_range_mem [OF assms] by simp

lemma diamond_coords_mem:
  assumes "c \<in> set (diamond_coords sz s)" "s dvd sz - 1"
  shows "0 \<le> fst c \<and> fst c + s \<le> sz - 1 \<and> 0 \<le> snd c \<and> snd c + s \<le> sz - 1 \<and> 0 < s
         \<and> s dvd fst c \<and> s dvd snd c"
proof -
  obtain y x where c: "c = (y, x)" by (cases c)
  from assms(1) c have y: "y \<in> set (py_range 0 (sz - 1) s)" and x: "x \<in> set (py_range 0 (sz - 1) s)"
    by (auto simp: diamond_coords_def)
  note my = py_range_mem0 [OF y] and mx = py_range_mem0 [OF x]
  have "y + s \<le> sz - 1" using lattice_next [of s y "sz - 1"] my assms(2) by simp
  moreover have "x + s \<le> sz - 1" using lattice_next [of s x "sz - 1"] mx assms(2) by simp
  ultimately show ?thesis using my mx c by simp
qed

lemma grid_ok_store:
  assumes "grid_ok sz (g, rs)" "0 \<le> y" "y < sz" "0 \<le> x" "x < sz"
  shows "\<exists>g'. store y x v g = Inr g' \<and> grid_ok sz (g', rs') \<and> roughness g' = roughness g"
proof -
  have sh: "shape sz (heightmap g)" using assms(1) by (simp add: grid_ok_def)
  have "store y x v g =
      Inr (g\<lparr>heightmap := (heightmap g)[nat y := (heightmap g ! nat y)[nat x := v]]\<rparr>)"
    by (rule store_in [OF sh assms(2-5)])
  moreover have "grid_ok sz (g\<lparr>heightmap := (heightmap g)[nat y := (heightmap g ! nat y)[nat x := v]]\<rparr>, rs')"
    using assms(1) shape_update [OF sh] by (simp add: grid_ok_def)
  ultimately show ?thesis by simp
qed

lemma diamond_point_ok:
  assumes ok: "grid_ok sz st"
    and b: "0 \<le> y" "y + s \<le> sz - 1" "0 \<le> x" "x + s \<le> sz - 1" "0 \<le> h" "h \<le> s"
  shows "\<exists>st'. diamond_point s h r (y, x) st = Inr st' \<and> grid_ok sz st'"
proof -
  obtain g rs where st: "st = (g, rs)" by (cases st)
  have sh: "shape sz (heightmap g)" using ok st by (simp add: grid_ok_def)
  obtain off rs' where off: "get_random_offset g r rs = (off, rs')"
    by (cases "get_random_offset g r rs")
  have r1: "getitem (heightmap g) y x = Inr (heightmap g ! nat y ! nat x)"
    using b by (intro getitem_in [OF sh]) simp_all
  have r2: "getitem (heightmap g) (y + s) x = Inr (heightmap g ! nat (y + s) ! nat x)"
    using b by (intro getitem_in [OF sh]) simp_all
  have r3: "getitem (heightmap g) y (x + s) = Inr (heightmap g ! nat y ! nat (x + s))"
    using b by (intro getitem_in [OF sh]) simp_all
  have r4: "getitem (heightmap g) (y + s) (x + s) = Inr (heightmap g ! nat (y + s) ! nat (x + s))"
    using b by (intro getitem_in [OF sh]) simp_all
  have "\<exists>g'. store (y + h) (x + h) v g = Inr g' \<and> grid_ok sz (g', rs') \<and> roughness g' = roughness g" for v
    using b ok st by (intro grid_ok_store [of sz g rs]) simp_all
  then show ?thesis
    unfolding diamond_point_def st by (simp add: r1 r2 r3 r4 off Let_def) (metis ebind_Inr)
qed

lemma diamond_step_ok:
  assumes "grid_ok sz st" "s dvd sz - 1" "0 \<le> h" "h \<le> s"
  shows "\<exists>st'. diamond_step s h r st = Inr st' \<and> grid_ok sz st'"
proof -
  have sz: "size_g (fst st) = sz" using assms(1) by (simp add: grid_ok_def)
  have "\<exists>st'. for_each (diamond_point s h r) (diamond_coords sz s) st = Inr st' \<and> grid_ok sz st'"
  proof (rule for_each_inv [where I = "grid_ok sz", OF assms(1)])
    fix c t assume c: "c \<in> set (diamond_coords sz s)" and t: "grid_ok sz t"
    note m = diamond_coords_mem [OF c assms(2)]
    have "\<exists>st'. diamond_point s h r (fst c, snd c) t = Inr st' \<and> grid_ok sz st'"
      using m assms(3,4) by (intro diamond_point_ok [OF t]) simp_all
    then show "\<exists>s'. diamond_point s h r c t = Inr s' \<and> grid_ok sz s'" by simp
  qed
  then show ?thesis by (simp add: diamond_step_def sz)
qed

subsection \<open>The square step stays in the grid\<close>

lemma add_neighbor_in:
  assumes "shape sz (heightmap g)" "cond \<Longrightarrow> 0 \<le> y \<and> y < sz \<and> 0 \<le> x \<and> x < sz"
  shows "add_neighbor g cond y x (a, n) =
           Inr (a + (if cond then heightmap g ! nat y ! nat x else 0), n + (if cond then 1 else 0))"
proof (cases cond)
  case True
  then have "getitem (heightmap g) y x = Inr (heightmap g ! nat y ! nat x)"
    using assms(2) by (intro getitem_in [OF assms(1)]) simp_all
  with True show ?thesis by (simp add: add_neighbor_def)
next
  case False
  then show ?thesis by (simp add: add_neighbor_def)
qed

text \<open>The sum and the number of the neighbours whose bounds check succeeds.\<close>

lemma square_neighbors_in:
  assumes ok: "grid_ok sz (g, rs)" and b: "0 \<le> y" "y < sz" "0 \<le> x" "x < sz" "0 < h"
  shows "square_neighbors g h y x =
           Inr (0 + (if h \<le> y then heightmap g ! nat (y - h) ! nat x else 0)
                  + (if y + h < sz then heightmap g ! nat (y + h) ! nat x else 0)
                  + (if h \<le> x then heightmap g ! nat y ! nat (x - h) else 0)
                  + (if x + h < sz then heightmap g ! nat y ! nat (x + h) else 0),
                0 + (if h \<le> y then 1 else 0) + (if y + h < sz then 1 else 0)
                  + (if h \<le> x then 1 else 0) + (if x + h < sz then 1 else 0))"
proof -
  have sh: "shape sz (heightmap g)" and sz: "size_g g = sz"
    using ok by (simp_all add: grid_ok_def)
  have n1: "add_neighbor g (h \<le> y) (y - h) x (a, n) =
      Inr (a + (if h \<le> y then heightmap g ! nat (y - h) ! nat x else 0), n + (if h \<le> y then 1 else 0))" for a n
    using b by (intro add_neighbor_in [OF sh]) simp
  have n2: "add_neighbor g (y + h < sz) (y + h) x (a, n) =
      Inr (a + (if y + h < sz then heightmap g ! nat (y + h) ! nat x else 0), n + (if y + h < sz then 1 else 0))" for a n
    using b by (intro add_neighbor_in [OF sh]) simp
  have n3: "add_neighbor g (h \<le> x) y (x - h) (a, n) =
      Inr (a + (if h \<le> x then heightmap g ! nat y ! nat (x - h) else 0), n + (if h \<le> x then 1 else 0))" for a n
    using b by (intro add_neighbor_in [OF sh]) simp
  have n4: "add_neighbor g (x + h < sz) y (x + h) (a, n) =
      Inr (a + (if x + h < sz then heightmap g ! nat y ! nat (x + h) else 0), n + (if x + h < sz then 1 else 0))" for a n
    using b by (intro add_neighbor_in [OF sh]) simp
  show ?thesis
    unfolding square_neighbors_def sz by (simp only: n1 n2 n3 n4 ebind_Inr)
qed

lemma square_point_run:
  assumes ok: "grid_ok sz st"
    and b: "0 \<le> y" "y < sz" "0 \<le> x" "x < sz" "0 < h"
      "h \<le> y \<or> y + h < sz \<or> h \<le> x \<or> x + h < sz"
  shows "\<exists>st'. square_point h r (y, x) st = Inr st' \<and> grid_ok sz st'"
proof -
  obtain g rs where st: "st = (g, rs)" by (cases st)
  obtain off rs' where off: "get_random_offset g r rs = (off, rs')"
    by (cases "get_random_offset g r rs")
  define n :: int where "n = 0 + (if h \<le> y then 1 else 0) + (if y + h < sz then 1 else 0)
                 + (if h \<le> x then 1 else 0) + (if x + h < sz then 1 else 0)"
  from square_neighbors_in [OF ok [unfolded st] b(1-5)]
  obtain a where a: "square_neighbors g h y x = Inr (a, n)" unfolding n_def by blast
  have "n \<noteq> 0" using b(6) unfolding n_def by (auto split: if_splits)
  moreover have "\<exists>g'. store y x v g = Inr g' \<and> grid_ok sz (g', rs') \<and> roughness g' = roughness g" for v
    using b ok st by (intro grid_ok_store [of sz g rs]) simp_all
  ultimately show ?thesis
    unfolding square_point_def st by (simp add: a off Let_def) (metis ebind_Inr)
qed

lemma square_point_ok:
  assumes ok: "grid_ok sz st"
    and b: "0 \<le> y" "y < sz" "0 \<le> x" "x < sz" "0 < h" "2 * h < sz"
  shows "\<exists>st'. square_point h r (y, x) st = Inr st' \<and> grid_ok sz st'"
proof (rule square_point_run [OF ok b(1-5)])
  show "h \<le> y \<or> y + h < sz \<or> h \<le> x \<or> x + h < sz" using b by linarith
qed

lemma square_coords_mem:
  assumes "c \<in> set (square_coords sz s h)"
  shows "0 \<le> fst c \<and> fst c < sz \<and> 0 \<le> snd c \<and> snd c < sz \<and> 0 < h \<and> 0 < s
         \<and> h dvd fst c \<and> s dvd (snd c - (fst c + h) mod s)"
proof -
  obtain y x where c: "c = (y, x)" by (cases c)
  from assms c have y: "y \<in> set (py_range 0 sz h)"
    and x: "x \<in> set (py_range ((y + h) mod s) sz s)"
    by (auto simp: square_coords_def)
  note my = py_range_mem0 [OF y] and mx = py_range_mem [OF x]
  from mx have "0 \<le> (y + h) mod s" by simp
  with mx have "0 \<le> x" by linarith
  with my mx c show ?thesis by simp
qed

lemma square_step_ok:
  assumes "grid_ok sz st" "2 * h < sz"
  shows "\<exists>st'. square_step s h r st = Inr st' \<and> grid_ok sz st'"
proof -
  have sz: "size_g (fst st) = sz" using assms(1) by (simp add: grid_ok_def)
  have "\<exists>st'. for_each (square_point h r) (square_coords sz s h) st = Inr st' \<and> grid_ok sz st'"
  proof (rule for_each_inv [where I = "grid_ok sz", OF assms(1)])
    fix c t assume c: "c \<in> set (square_coords sz s h)" and t: "grid_ok sz t"
    note m = square_coords_mem [OF c]
    have "\<exists>st'. square_point h r (fst c, snd c) t = Inr st' \<and> grid_ok sz st'"
      using m assms(2) by (intro square_point_ok [OF t]) simp_all
    then show "\<exists>s'. square_point h r c t = Inr s' \<and> grid_ok sz s'" by simp
  qed
  then show ?thesis by (simp add: square_step_def sz)
qed

lemma main_loop_ok:
  assumes "grid_ok sz st" "2 ^ k dvd sz - 1" "0 < sz - 1"
  shows "\<exists>st'. main_loop (2 ^ k) r st = Inr (1, r / 2 ^ k, st') \<and> grid_ok sz st'"
  using assms
proof (induction k arbitrary: r st)
  case 0
  then show ?case by (simp add: main_loop.simps)
next
  case (Suc k)
  let ?s = "(2::int) ^ Suc k"
  have pos: "(0::int) < 2 ^ k" by simp
  have "(1::int) \<le> 2 ^ k" by simp
  then have s1: "?s > 1" unfolding power_Suc by linarith
  have half: "?s div 2 = 2 ^ k" by simp
  have le: "?s \<le> sz - 1" using Suc.prems(2,3) by (rule_tac zdvd_imp_le) simp_all
  from diamond_step_ok [OF Suc.prems(1,2), of "2 ^ k" r]
  obtain st1 where st1: "diamond_step ?s (2 ^ k) r st = Inr st1" "grid_ok sz st1"
    using pos by auto
  have "2 * (2::int) ^ k < sz" using le by simp
  from square_step_ok [OF st1(2) this, of ?s r]
  obtain st2 where st2: "square_step ?s (2 ^ k) r st1 = Inr st2" "grid_ok sz st2"
    by auto
  have dv: "(2::int) ^ k dvd sz - 1"
    using Suc.prems(2) by (metis dvd_mult_right power_Suc)
  from Suc.IH [OF st2(2) dv Suc.prems(3), of "r * (1 / 2)"]
  obtain st' where st': "main_loop (2 ^ k) (r * (1 / 2)) st2 = Inr (1, r * (1 / 2) / 2 ^ k, st')"
    "grid_ok sz st'" by auto
  have "main_loop ?s r st = main_loop (2 ^ k) (r * (1 / 2)) st2"
    using s1 by (subst main_loop.simps) (simp only: half st1 st2 if_True sum.case)
  with st' show ?case by simp
qed

subsection \<open>The corners, and the whole of \<^verbatim>\<open>diamond_square\<close>\<close>

lemma np_index_wrap:
  assumes "- int n \<le> i" "i < int n"
  shows "np_index n i = Inr (nat (i mod int n))"
proof (cases "0 \<le> i")
  case True
  with assms show ?thesis by (simp add: np_index_def)
next
  case False
  then have "i mod int n = i + int n"
    using assms by (smt (verit) mod_add_self2 mod_pos_pos_trivial)
  with False assms show ?thesis by (simp add: np_index_def)
qed

lemma setitem_wrap:
  assumes "shape sz hm" "- sz \<le> y" "y < sz" "- sz \<le> x" "x < sz"
  shows "setitem hm y x v = setitem hm (y mod sz) (x mod sz) v"
proof -
  have l: "int (length hm) = sz" using assms(1) by (simp add: shape_def)
  have pos: "0 < sz" using assms by linarith
  have ym: "0 \<le> y mod sz" "y mod sz < sz" using pos by simp_all
  have xm: "0 \<le> x mod sz" "x mod sz < sz" using pos by simp_all
  have r: "int (length (hm ! nat (y mod sz))) = sz" using assms(1) ym by (rule shape_row)
  have y1: "np_index (length hm) y = Inr (nat (y mod sz))"
    using np_index_wrap [of "length hm" y] assms l by simp
  have x1: "np_index (length (hm ! nat (y mod sz))) x = Inr (nat (x mod sz))"
    using np_index_wrap [of "length (hm ! nat (y mod sz))" x] assms r by simp
  have "setitem hm y x v = Inr (hm[nat (y mod sz) := (hm ! nat (y mod sz))[nat (x mod sz) := v]])"
    by (simp add: setitem_def y1 x1)
  also have "\<dots> = setitem hm (y mod sz) (x mod sz) v"
    by (rule setitem_in [OF assms(1) ym xm, symmetric])
  finally show ?thesis .
qed

lemma store_wrap:
  assumes "shape sz (heightmap g)" "- sz \<le> y" "y < sz" "- sz \<le> x" "x < sz"
  shows "store y x v g = store (y mod sz) (x mod sz) v g"
  by (simp add: store_def setitem_wrap [OF assms])

lemma init_corner_ok:
  assumes ok: "grid_ok sz st" and b: "- sz \<le> y" "y < sz" "- sz \<le> x" "x < sz"
  shows "\<exists>st'. init_corner (y, x) st = Inr st' \<and> grid_ok sz st'"
proof -
  obtain g rs where st: "st = (g, rs)" by (cases st)
  obtain u rs' where u: "random_random rs = (u, rs')" by (cases "random_random rs")
  have sh: "shape sz (heightmap g)" using ok st by (simp add: grid_ok_def)
  have pos: "0 < sz" using b by linarith
  have "\<exists>g'. store (y mod sz) (x mod sz) u g = Inr g' \<and> grid_ok sz (g', rs') \<and> roughness g' = roughness g"
    using pos ok st by (intro grid_ok_store [of sz g rs]) simp_all
  then show ?thesis
    unfolding init_corner_def st by (auto simp: u store_wrap [OF sh b])
qed

lemma init_corners_ok:
  assumes "grid_ok sz st" "1 \<le> sz"
  shows "\<exists>st'. init_corners st = Inr st' \<and> grid_ok sz st'"
  unfolding init_corners_def
proof (rule for_each_inv [where I = "grid_ok sz", OF assms(1)])
  fix c t assume c: "c \<in> set corner_indices" and t: "grid_ok sz t"
  have "\<exists>st'. init_corner (fst c, snd c) t = Inr st' \<and> grid_ok sz st'"
    using c assms(2) by (intro init_corner_ok [OF t]) (auto simp: corner_indices_def)
  then show "\<exists>s'. init_corner c t = Inr s' \<and> grid_ok sz s'" by simp
qed

lemma diamond_square_ok:
  assumes "grid_ok (2 ^ n + 1) (g, rs)"
  shows "\<exists>g1 rs1. diamond_square g rs = Inr (g1, rs1) \<and> grid_ok (2 ^ n + 1) (g1, rs1)"
proof -
  let ?sz = "(2::int) ^ n + 1"
  have sz: "size_g g = ?sz" using assms by (simp add: grid_ok_def)
  have "1 \<le> ?sz" by simp
  from init_corners_ok [OF assms this]
  obtain st where st: "init_corners (g, rs) = Inr st" "grid_ok ?sz st" by blast
  have "\<exists>st'. main_loop (2 ^ n) 1 st = Inr (1, 1 / 2 ^ n, st') \<and> grid_ok ?sz st'"
    using st(2) by (intro main_loop_ok) simp_all
  then obtain st' where st': "main_loop (2 ^ n) 1 st = Inr (1, 1 / 2 ^ n, st')" "grid_ok ?sz st'"
    by blast
  obtain g1 rs1 where p: "st' = (g1, rs1)" by (cases st')
  have "diamond_square g rs = Inr (g1, rs1)"
    by (simp add: diamond_square_def sz st(1) st'(1) p)
  with st'(2) p show ?thesis by blast
qed

lemma shape_replicate: "0 \<le> sz \<Longrightarrow> shape sz (replicate (nat sz) (replicate (nat sz) v))"
  by (simp add: shape_def)

lemma init_ok:
  assumes "0 \<le> sz"
  shows "init sz = Inr \<lparr>size_g = sz, heightmap = replicate (nat sz) (replicate (nat sz) 0),
                        roughness = 6 / 10, sea_level = 4 / 10\<rparr>"
  using assms by (simp add: init_def np_zeros_def)

lemma init_grid_ok:
  assumes "0 \<le> sz" "init sz = Inr g"
  shows "grid_ok sz (g, rs)"
  using assms shape_replicate [of sz "0::real"] by (auto simp: init_ok grid_ok_def)

subsection \<open>Normalisation\<close>

lemma np_min_Min:
  assumes "concat hm \<noteq> []"
  shows "np_min hm = Inr (Min (set (concat hm)))"
proof -
  from assms obtain v vs where c: "concat hm = v # vs" by (cases "concat hm") auto
  have "fold min vs v = Min (set (v # vs))" by (rule Min.set_eq_fold [symmetric])
  with c show ?thesis unfolding np_min_def by (simp only: list.case)
qed

lemma np_max_Max:
  assumes "concat hm \<noteq> []"
  shows "np_max hm = Inr (Max (set (concat hm)))"
proof -
  from assms obtain v vs where c: "concat hm = v # vs" by (cases "concat hm") auto
  have "fold max vs v = Max (set (v # vs))" by (rule Max.set_eq_fold [symmetric])
  with c show ?thesis unfolding np_max_def by (simp only: list.case)
qed

lemma np_min_empty:
  assumes "concat hm = []"
  shows "np_min hm = Inl ValueError"
  unfolding np_min_def assms by simp

lemma cell_in_concat:
  assumes "y < length hm" "x < length (hm ! y)"
  shows "hm ! y ! x \<in> set (concat hm)"
proof -
  have "hm ! y \<in> set hm" using assms(1) by simp
  moreover have "hm ! y ! x \<in> set (hm ! y)" using assms(2) by simp
  ultimately show ?thesis by auto
qed

lemma shape_concat_nonempty:
  assumes "shape sz hm" "1 \<le> sz"
  shows "concat hm \<noteq> []"
proof -
  have l: "0 < length hm" using assms by (auto simp: shape_def)
  then have "hm ! 0 \<in> set hm" by simp
  then have "int (length (hm ! 0)) = sz" using assms(1) by (simp add: shape_def)
  then have "0 < length (hm ! 0)" using assms(2) by linarith
  with l have "hm ! 0 ! 0 \<in> set (concat hm)" by (rule cell_in_concat)
  then show ?thesis by (metis empty_iff empty_set)
qed

lemma normalize_eq:
  assumes "concat hm \<noteq> []"
  shows "normalize_grid hm =
    Inr (map (map (\<lambda>v. np_divide (v - Min (set (concat hm)))
                               (Max (set (concat hm)) - Min (set (concat hm))))) hm)"
  by (simp add: normalize_grid_def np_min_Min [OF assms] np_max_Max [OF assms])

lemma in_unit_divide:
  assumes "mn \<le> v" "v \<le> mx" "mn \<noteq> mx"
  shows "in_unit (np_divide (v - mn) (mx - mn))"
proof -
  have d: "0 < mx - mn" using assms by simp
  have "0 \<le> (v - mn) / (mx - mn)" using assms d by simp
  moreover have "(v - mn) / (mx - mn) \<le> 1" using assms d by simp
  ultimately show ?thesis using d by (simp add: np_divide_def)
qed

lemma np_divide_flat:
  assumes "mn \<le> v" "v \<le> mx" "mn = mx"
  shows "np_divide (v - mn) (mx - mn) = NaN"
  using assms by (simp add: np_divide_def)

lemma shape_map: "shape sz hm \<Longrightarrow> shape sz (map (map f) hm)"
  by (auto simp: shape_def)

subsection \<open>Colour mapping\<close>

lemma map_result_total:
  assumes "\<And>a. a \<in> set xs \<Longrightarrow> \<exists>b. f a = Inr b"
  shows "\<exists>bs. map_result f xs = Inr bs"
  using assms
proof (induction xs)
  case Nil
  then show ?case by simp
next
  case (Cons a xs)
  from Cons.prems obtain b where b: "f a = Inr b" by (meson list.set_intros(1))
  from Cons.IH Cons.prems obtain bs where bs: "map_result f xs = Inr bs"
    by (meson list.set_intros(2))
  show ?case by (simp add: b bs)
qed

lemma map_result_Inr_all:
  assumes "map_result f xs = Inr bs" "a \<in> set xs"
  shows "\<exists>b. f a = Inr b"
  using assms
proof (induction xs arbitrary: bs)
  case Nil
  then show ?case by simp
next
  case (Cons c xs)
  from Cons.prems(1) obtain b bs' where b: "f c = Inr b" and bs': "map_result f xs = Inr bs'"
    by (auto split: sum.splits)
  from Cons.prems(2) have "a = c \<or> a \<in> set xs" by simp
  then show ?case
  proof
    assume "a = c" with b show ?thesis by simp
  next
    assume "a \<in> set xs" with Cons.IH [OF bs'] show ?thesis by simp
  qed
qed

lemma color_in_unit: "in_unit c \<Longrightarrow> \<exists>p. color sl c = Inr p"
  by (cases c) (simp_all add: Let_def)

lemma color_NaN: "color sl c = Inr p \<Longrightarrow> c \<noteq> NaN"
  by (cases c) simp_all

lemma color_map_total:
  assumes "\<And>row c. row \<in> set hm \<Longrightarrow> c \<in> set row \<Longrightarrow> in_unit c"
  shows "\<exists>img. color_map sl hm = Inr img"
  unfolding color_map_def
proof (rule map_result_total)
  fix row assume "row \<in> set hm"
  then show "\<exists>b. map_result (color sl) row = Inr b"
    using assms by (intro map_result_total color_in_unit) blast
qed

lemma color_map_no_NaN:
  assumes "color_map sl hm = Inr img" "row \<in> set hm" "c \<in> set row"
  shows "c \<noteq> NaN"
proof -
  from map_result_Inr_all [OF assms(1) [unfolded color_map_def] assms(2)]
  obtain b where "map_result (color sl) row = Inr b" by blast
  from map_result_Inr_all [OF this assms(3)] obtain p where "color sl c = Inr p" by blast
  then show ?thesis by (rule color_NaN)
qed

text \<open>
  For a height in \<open>[0, 1]\<close> and the sea level 0.4 the three components of the colour lie
  between 0 and 255: the \<^verbatim>\<open>uint8\<close> cells of the image hold them as they are.
\<close>

lemma py_int_bounds:
  assumes "0 \<le> lo" "of_int lo \<le> v" "v < of_int hi + 1"
  shows "lo \<le> py_int v \<and> py_int v \<le> hi"
proof -
  have "0 \<le> v" using assms(1,2) by (metis of_int_0_le_iff order_trans)
  then have p: "py_int v = \<lfloor>v\<rfloor>" by (simp add: py_int_def)
  have "lo \<le> \<lfloor>v\<rfloor>" using assms(2) by (simp add: le_floor_iff)
  moreover have "\<lfloor>v\<rfloor> \<le> hi" using assms(3) by (simp add: floor_le_iff)
  ultimately show ?thesis by (simp add: p)
qed

lemma color_uint8:
  assumes h: "0 \<le> h" "h \<le> 1" and c: "color (4 / 10) (Finite h) = Inr (r, g, b)"
  shows "0 \<le> r \<and> r \<le> 255 \<and> 0 \<le> g \<and> g \<le> 255 \<and> 0 \<le> b \<and> b \<le> 255"
proof (cases "h < 4 / 10")
  case True
  define d where "d = h / (4 / 10)"
  have d: "0 \<le> d" "d < 1" using h(1) True by (simp_all add: d_def)
  from c True have r: "r = 0" and g: "g = py_int (150 + 75 * d)"
    and b: "b = py_int (150 + 105 * d)"
    by (simp_all add: Let_def d_def)
  have "150 \<le> py_int (150 + 75 * d) \<and> py_int (150 + 75 * d) \<le> 255"
    using d by (intro py_int_bounds) simp_all
  moreover have "150 \<le> py_int (150 + 105 * d) \<and> py_int (150 + 105 * d) \<le> 255"
    using d by (intro py_int_bounds) simp_all
  ultimately show ?thesis unfolding r g b by simp
next
  case False
  define l where "l = (h - 4 / 10) / (1 - 4 / 10)"
  have l: "0 \<le> l" "l \<le> 1" using h(2) False by (simp_all add: l_def)
  from c False have r: "r = 100 + py_int (50 * l)" and g: "g = py_int (180 - 60 * l)"
    and b: "b = 50"
    by (simp_all add: Let_def l_def)
  have "0 \<le> py_int (50 * l) \<and> py_int (50 * l) \<le> 50"
    using l by (intro py_int_bounds) simp_all
  moreover have "120 \<le> py_int (180 - 60 * l) \<and> py_int (180 - 60 * l) \<le> 180"
    using l by (intro py_int_bounds) simp_all
  ultimately show ?thesis unfolding r g b by simp
qed

subsection \<open>Three runs on the 3 \<times> 3 grid\<close>

lemmas run_defs =
  diamond_square_def init_corners_def corner_indices_def init_corner_def random_random_def
  store_def setitem_def getitem_def np_index_def get_random_offset_def
  diamond_step_def diamond_coords_def diamond_point_def
  square_step_def square_coords_def square_point_def square_neighbors_def add_neighbor_def
  main_loop.simps py_range.simps Let_def

lemma init_3: "init 3 = Inr gen3"
  by (simp add: init_def np_zeros_def gen3_def numeral_3_eq_3)

lemma flat_raw:
  "diamond_square gen3 flat_rand =
     Inr (gen3\<lparr>heightmap := [[1 / 2, 1 / 2, 1 / 2], [1 / 2, 1 / 2, 1 / 2], [1 / 2, 1 / 2, 1 / 2]]\<rparr>,
          flat_rand\<lparr>consumed := 9\<rparr>)"
  by (simp add: run_defs gen3_def flat_rand_def)

lemma low_raw:
  "diamond_square gen3 low_rand =
     Inr (gen3\<lparr>heightmap := [[0, 7 / 24, 1 / 2], [7 / 24, 3 / 8, 11 / 24], [1 / 2, 11 / 24, 1 / 2]]\<rparr>,
          low_rand\<lparr>consumed := 9\<rparr>)"
  by (simp add: run_defs gen3_def low_rand_def)



lemma flat_normalize:
  "normalize_grid [[1 / 2, 1 / 2, 1 / 2], [1 / 2, 1 / 2, 1 / 2], [1 / 2, 1 / 2, 1 / 2]] =
     Inr [[NaN, NaN, NaN], [NaN, NaN, NaN], [NaN, NaN, NaN]]"
  by (simp add: normalize_grid_def np_min_def np_max_def np_divide_def)



lemma flat_generate: "generate_coastline gen3 flat_rand = Inl ValueError"
  by (simp add: generate_coastline_def flat_raw flat_normalize color_map_def)



lemma create_3: "create_coastline_image 3 rs = generate_coastline gen3 rs"
  by (simp add: create_coastline_image_def init_3)

subsection \<open>Runs with sizes 2 and 10\<close>



subsection \<open>The loop over \<^verbatim>\<open>step_size\<close>\<close>


lemma step_sizes_stop: "s \<le> 1 \<Longrightarrow> step_sizes s = []"
  by (simp add: step_sizes.simps)

lemma step_sizes_go: "1 < s \<Longrightarrow> step_sizes s = s # step_sizes (s div 2)"
  by (subst step_sizes.simps) simp





lemma step_sizes_pow2: "step_sizes (2 ^ n) = map (\<lambda>k. 2 ^ (n - k)) [0..<n]"
proof (induction n)
  case 0
  then show ?case by (simp add: step_sizes_stop)
next
  case (Suc n)
  have "(1::int) \<le> 2 ^ n" by simp
  then have big: "(1::int) < 2 ^ Suc n" unfolding power_Suc by linarith
  have "map (\<lambda>k. (2::int) ^ (Suc n - k)) [0..<Suc n]
      = 2 ^ Suc n # map (\<lambda>k. 2 ^ (Suc n - Suc k)) [0..<n]"
    by (simp only: upt_conv_Cons [of 0 "Suc n"] map_Suc_upt [symmetric]) (simp add: comp_def)
  also have "\<dots> = 2 ^ Suc n # step_sizes (2 ^ n)" by (simp add: Suc.IH)
  also have "\<dots> = step_sizes (2 ^ Suc n)" using step_sizes_go [OF big] by simp
  finally show ?case by simp
qed

lemma step_sizes_pow2_mem:
  assumes "s \<in> set (step_sizes (2 ^ n))"
  shows "\<exists>k. k < n \<and> s = 2 * 2 ^ k"
proof -
  from assms obtain j where j: "j < n" "s = 2 ^ (n - j)"
    by (auto simp: step_sizes_pow2)
  then have "n - j = Suc (n - j - 1)" by simp
  then have "s = 2 * 2 ^ (n - j - 1)" using j(2) by (metis power_Suc)
  moreover have "n - j - 1 < n" using j(1) by simp
  ultimately show ?thesis by blast
qed


subsection \<open>The lattice of the square step\<close>

lemma square_coords_lattice:
  assumes c: "c \<in> set (square_coords sz s h)" and s: "s = 2 * h"
  shows "h dvd fst c \<and> h dvd snd c \<and> \<not> (s dvd fst c \<and> s dvd snd c)"
proof -
  obtain y x where yx: "c = (y, x)" by (cases c)
  from square_coords_mem [OF c] yx
  have h: "0 < h" and hy: "h dvd y" and sx: "s dvd (x - (y + h) mod s)" by simp_all
  have hs: "h dvd s" using s by simp
  have "h dvd (y + h)" using hy by simp
  then have hm: "h dvd (y + h) mod s" using hs by (rule dvd_mod)
  have "h dvd (x - (y + h) mod s)" using hs sx by (rule dvd_trans)
  then have "h dvd (x - (y + h) mod s) + (y + h) mod s" using hm by (rule dvd_add)
  then have hx: "h dvd x" by simp
  have no: False if sy: "s dvd y" and sx': "s dvd x"
  proof -
    from sy obtain k where "y = s * k" by (auto elim: dvdE)
    then have "(y + h) mod s = h mod s" by simp
    also have "\<dots> = h" using h s by simp
    finally have "s dvd (x - h)" using sx by simp
    with sx' have "s dvd x - (x - h)" by (rule dvd_diff)
    then have "s dvd h" by simp
    then have "s \<le> h" using h by (rule zdvd_imp_le)
    with s h show False by simp
  qed
  from hy hx no yx show ?thesis by auto
qed

lemma lattice_low:
  fixes h y :: int
  assumes "0 < h" "h dvd y" "0 \<le> y"
  shows "h \<le> y \<longleftrightarrow> y \<noteq> 0"
proof
  assume "h \<le> y" with assms(1) show "y \<noteq> 0" by simp
next
  assume "y \<noteq> 0"
  with assms(3) have "0 < y" by simp
  with assms(2) show "h \<le> y" by (rule zdvd_imp_le)
qed

lemma lattice_high:
  fixes h y sz :: int
  assumes "0 < h" "h dvd y" "h dvd sz - 1" "y \<le> sz - 1"
  shows "y + h < sz \<longleftrightarrow> y \<noteq> sz - 1"
proof
  assume "y + h < sz" with assms(1) show "y \<noteq> sz - 1" by simp
next
  assume "y \<noteq> sz - 1"
  with assms(4) have "y < sz - 1" by simp
  from lattice_next [OF assms(1,2,3) this] show "y + h < sz" by simp
qed

lemma lattice_count:
  fixes h y x sz :: int
  assumes "0 < h" "h dvd sz - 1" "h dvd y" "h dvd x"
    and "0 \<le> y" "y \<le> sz - 1" "0 \<le> x" "x \<le> sz - 1"
  shows "(0::int) + (if h \<le> y then 1 else 0) + (if y + h < sz then 1 else 0)
           + (if h \<le> x then 1 else 0) + (if x + h < sz then 1 else 0)
         = (if y = 0 then 0 else 1) + (if y = sz - 1 then 0 else 1)
           + (if x = 0 then 0 else 1) + (if x = sz - 1 then 0 else 1)"
  using lattice_low [of h y] lattice_low [of h x] lattice_high [of h y sz] lattice_high [of h x sz]
    assms by simp

lemma square_neighbors_lattice:
  assumes ok: "grid_ok sz (g, rs)" and sz: "1 < sz"
    and h: "0 < h" "h dvd sz - 1" "h dvd y" "h dvd x"
    and b: "0 \<le> y" "y \<le> sz - 1" "0 \<le> x" "x \<le> sz - 1"
  shows "\<exists>a k. square_neighbors g h y x = Inr (a, k)
    \<and> a = 0 + (if y \<noteq> 0 then heightmap g ! nat (y - h) ! nat x else 0)
             + (if y \<noteq> sz - 1 then heightmap g ! nat (y + h) ! nat x else 0)
             + (if x \<noteq> 0 then heightmap g ! nat y ! nat (x - h) else 0)
             + (if x \<noteq> sz - 1 then heightmap g ! nat y ! nat (x + h) else 0)
    \<and> ((y = 0 \<or> y = sz - 1) \<and> (x = 0 \<or> x = sz - 1) \<longrightarrow> k = 2)
    \<and> ((y = 0 \<or> y = sz - 1) \<and> 0 < x \<and> x < sz - 1 \<longrightarrow> k = 3)
    \<and> (0 < y \<and> y < sz - 1 \<and> (x = 0 \<or> x = sz - 1) \<longrightarrow> k = 3)
    \<and> (0 < y \<and> y < sz - 1 \<and> 0 < x \<and> x < sz - 1 \<longrightarrow> k = 4)
    \<and> (\<exists>st'. square_point h r (y, x) (g, rs) = Inr st')"
proof -
  have b': "0 \<le> y" "y < sz" "0 \<le> x" "x < sz" "0 < h" using b h(1) by simp_all
  note ly = lattice_low [OF h(1,3) b(1)] and hy = lattice_high [OF h(1,3,2) b(2)]
    and lx = lattice_low [OF h(1,4) b(3)] and hx = lattice_high [OF h(1,4,2) b(4)]
  define k :: int where "k = (if y = 0 then 0 else 1) + (if y = sz - 1 then 0 else 1)
           + (if x = 0 then 0 else 1) + (if x = sz - 1 then 0 else 1)"
  define a where "a = 0 + (if y \<noteq> 0 then heightmap g ! nat (y - h) ! nat x else 0)
             + (if y \<noteq> sz - 1 then heightmap g ! nat (y + h) ! nat x else 0)
             + (if x \<noteq> 0 then heightmap g ! nat y ! nat (x - h) else 0)
             + (if x \<noteq> sz - 1 then heightmap g ! nat y ! nat (x + h) else 0)"
  have eq: "square_neighbors g h y x = Inr (a, k)"
    unfolding square_neighbors_in [OF ok b'] lattice_count [OF h b] a_def k_def ly hy lx hx
    by simp
  have k2: "(y = 0 \<or> y = sz - 1) \<and> (x = 0 \<or> x = sz - 1) \<longrightarrow> k = 2"
    using sz by (auto simp: k_def)
  have k3: "(y = 0 \<or> y = sz - 1) \<and> 0 < x \<and> x < sz - 1 \<longrightarrow> k = 3"
    using sz by (auto simp: k_def)
  have k3': "0 < y \<and> y < sz - 1 \<and> (x = 0 \<or> x = sz - 1) \<longrightarrow> k = 3"
    using sz by (auto simp: k_def)
  have k4: "0 < y \<and> y < sz - 1 \<and> 0 < x \<and> x < sz - 1 \<longrightarrow> k = 4"
    by (auto simp: k_def)
  have "h \<le> y \<or> y + h < sz \<or> h \<le> x \<or> x + h < sz"
    unfolding ly hy using sz by linarith
  from square_point_run [OF ok b' this]
  have run: "\<exists>st'. square_point h r (y, x) (g, rs) = Inr st'" by blast
  from eq k2 k3 k3' k4 run show ?thesis unfolding a_def by blast
qed

subsection \<open>Every assignment changes one cell\<close>

lemma store_put:
  assumes "shape sz (heightmap g)" "0 \<le> y" "y < sz" "0 \<le> x" "x < sz"
  shows "store y x v g = Inr (put g (y, x) v)"
  using store_in [OF assms] by (simp add: put_def)

lemma grid_ok_put:
  assumes "grid_ok sz (g, rs)"
  shows "grid_ok sz (put g c v, rs')"
  using assms shape_update [of sz "heightmap g"] by (simp add: grid_ok_def put_def)

lemma cell_put_same:
  assumes "shape sz (heightmap g)" "0 \<le> fst c" "fst c < sz" "0 \<le> snd c" "snd c < sz"
  shows "cell (put g c v) c = v"
proof -
  have "nat (fst c) < length (heightmap g)" using assms by (auto simp: shape_def)
  moreover have "nat (snd c) < length (heightmap g ! nat (fst c))"
    using shape_row [OF assms(1,2,3)] assms(4,5) by linarith
  ultimately show ?thesis by (simp add: cell_def put_def)
qed

lemma cell_put_other:
  assumes "0 \<le> fst c" "0 \<le> snd c" "0 \<le> fst c'" "0 \<le> snd c'" "c' \<noteq> c"
  shows "cell (put g c v) c' = cell g c'"
proof (cases "fst c' = fst c")
  case True
  with assms have ne: "nat (snd c) \<noteq> nat (snd c')" by (auto simp: prod_eq_iff)
  show ?thesis
  proof (cases "nat (fst c) < length (heightmap g)")
    case l: True
    then show ?thesis using True ne by (simp add: cell_def put_def)
  next
    case False
    then have "length (heightmap g) \<le> nat (fst c)" by simp
    then have "(heightmap g)[nat (fst c) := (heightmap g ! nat (fst c))[nat (snd c) := v]]
        = heightmap g" by (rule list_update_beyond)
    then show ?thesis by (simp add: cell_def put_def)
  qed
next
  case False
  with assms have "nat (fst c) \<noteq> nat (fst c')" by auto
  then show ?thesis by (simp add: cell_def put_def)
qed

lemma diamond_point_put:
  assumes ok: "grid_ok sz (g, rs)"
    and b: "0 \<le> y" "y + s \<le> sz - 1" "0 \<le> x" "x + s \<le> sz - 1" "0 \<le> h" "h \<le> s"
  shows "\<exists>v rs'. diamond_point s h r (y, x) (g, rs) = Inr (put g (y + h, x + h) v, rs')"
proof -
  have sh: "shape sz (heightmap g)" using ok by (simp add: grid_ok_def)
  obtain off rs' where off: "get_random_offset g r rs = (off, rs')"
    by (cases "get_random_offset g r rs")
  have r1: "getitem (heightmap g) y x = Inr (heightmap g ! nat y ! nat x)"
    using b by (intro getitem_in [OF sh]) simp_all
  have r2: "getitem (heightmap g) (y + s) x = Inr (heightmap g ! nat (y + s) ! nat x)"
    using b by (intro getitem_in [OF sh]) simp_all
  have r3: "getitem (heightmap g) y (x + s) = Inr (heightmap g ! nat y ! nat (x + s))"
    using b by (intro getitem_in [OF sh]) simp_all
  have r4: "getitem (heightmap g) (y + s) (x + s) = Inr (heightmap g ! nat (y + s) ! nat (x + s))"
    using b by (intro getitem_in [OF sh]) simp_all
  have st: "store (y + h) (x + h) v g = Inr (put g (y + h, x + h) v)" for v
    using b by (intro store_put [OF sh]) simp_all
  show ?thesis
    unfolding diamond_point_def by (simp add: r1 r2 r3 r4 off st Let_def) (rule exI, rule refl)
qed

lemma square_point_put:
  assumes ok: "grid_ok sz (g, rs)"
    and b: "0 \<le> y" "y < sz" "0 \<le> x" "x < sz" "0 < h"
      "h \<le> y \<or> y + h < sz \<or> h \<le> x \<or> x + h < sz"
  shows "\<exists>v rs'. square_point h r (y, x) (g, rs) = Inr (put g (y, x) v, rs')"
proof -
  have sh: "shape sz (heightmap g)" using ok by (simp add: grid_ok_def)
  obtain off rs' where off: "get_random_offset g r rs = (off, rs')"
    by (cases "get_random_offset g r rs")
  define n :: int where "n = 0 + (if h \<le> y then 1 else 0) + (if y + h < sz then 1 else 0)
                 + (if h \<le> x then 1 else 0) + (if x + h < sz then 1 else 0)"
  from square_neighbors_in [OF ok b(1-5)]
  obtain a where a: "square_neighbors g h y x = Inr (a, n)" unfolding n_def by blast
  have "n \<noteq> 0" using b(6) unfolding n_def by (auto split: if_splits)
  moreover have st: "store y x v g = Inr (put g (y, x) v)" for v
    using b by (intro store_put [OF sh]) simp_all
  ultimately show ?thesis
    unfolding square_point_def by (simp add: a off st Let_def) (rule exI, rule refl)
qed

text \<open>
  What the square step assigns to a point: the sum of the neighbours divided by their
  number, plus the offset of the next draw; the draw is consumed.
\<close>

lemma square_point_value:
  assumes ok: "grid_ok sz (g, rs)"
    and b: "0 \<le> y" "y < sz" "0 \<le> x" "x < sz"
    and nb: "square_neighbors g h y x = Inr (a, k)" and k: "k \<noteq> 0"
  shows "square_point h r (y, x) (g, rs) =
     Inr (put g (y, x) (a / real_of_int k + (draws rs (consumed rs) - 1 / 2) * r * roughness g),
          rs\<lparr>consumed := Suc (consumed rs)\<rparr>)"
proof -
  have sh: "shape sz (heightmap g)" using ok by (simp add: grid_ok_def)
  have st: "store y x v g = Inr (put g (y, x) v)" for v by (rule store_put [OF sh b])
  show ?thesis
    unfolding square_point_def
    by (simp add: nb k st get_random_offset_def random_random_def Let_def)
qed

lemma init_corner_put:
  assumes ok: "grid_ok sz (g, rs)" and b: "- sz \<le> y" "y < sz" "- sz \<le> x" "x < sz"
  shows "init_corner (y, x) (g, rs) =
     Inr (put g (y mod sz, x mod sz) (draws rs (consumed rs)), rs\<lparr>consumed := Suc (consumed rs)\<rparr>)"
proof -
  have sh: "shape sz (heightmap g)" using ok by (simp add: grid_ok_def)
  have pos: "0 < sz" using b by linarith
  have "store (y mod sz) (x mod sz) v g = Inr (put g (y mod sz, x mod sz) v)" for v
    using pos by (intro store_put [OF sh]) simp_all
  then show ?thesis
    unfolding init_corner_def by (simp add: random_random_def store_wrap [OF sh b])
qed

subsection \<open>The passes leave the corners alone\<close>

lemma corner_not_diamond_target:
  assumes "c \<in> set (corner_cells sz)" "s dvd sz - 1" "1 < s"
  shows "c \<notin> set (diamond_targets sz s)"
proof
  assume "c \<in> set (diamond_targets sz s)"
  then obtain d where d: "d \<in> set (diamond_coords sz s)"
    and c: "c = (fst d + s div 2, snd d + s div 2)"
    by (auto simp: diamond_targets_def)
  from diamond_coords_mem [OF d assms(2)]
  have y: "0 \<le> fst d" "fst d + s \<le> sz - 1" by simp_all
  have h: "0 < s div 2" "s div 2 < s" using assms(3) by simp_all
  from y h have "0 < fst c" "fst c < sz - 1" using c by simp_all
  with assms(1) show False by (auto simp: corner_cells_def)
qed

lemma corner_not_square_target:
  assumes "c \<in> set (corner_cells sz)" "s dvd sz - 1" "s = 2 * h"
  shows "c \<notin> set (square_coords sz s h)"
proof
  assume "c \<in> set (square_coords sz s h)"
  from square_coords_lattice [OF this assms(3)] have "\<not> (s dvd fst c \<and> s dvd snd c)" by simp
  moreover have "s dvd fst c \<and> s dvd snd c"
    using assms(1,2) by (auto simp: corner_cells_def)
  ultimately show False by blast
qed

lemma corner_in_range:
  assumes "c \<in> set (corner_cells sz)" "1 \<le> sz"
  shows "0 \<le> fst c \<and> fst c < sz \<and> 0 \<le> snd c \<and> snd c < sz"
  using assms by (auto simp: corner_cells_def)

lemma diamond_step_keeps:
  assumes ok: "grid_ok sz st" and s: "s dvd sz - 1" "1 < s"
    and C: "\<And>c. c \<in> C \<Longrightarrow> 0 \<le> fst c \<and> 0 \<le> snd c \<and> c \<notin> set (diamond_targets sz s)"
  shows "\<exists>st'. diamond_step s (s div 2) r st = Inr st' \<and> grid_ok sz st'
           \<and> (\<forall>c \<in> C. cell (fst st') c = cell (fst st) c)"
proof -
  let ?h = "s div 2"
  let ?I = "\<lambda>t. grid_ok sz t \<and> (\<forall>c \<in> C. cell (fst t) c = cell (fst st) c)"
  have sz: "size_g (fst st) = sz" using ok by (simp add: grid_ok_def)
  have h: "0 \<le> ?h" "?h \<le> s" using s(2) by simp_all
  have "\<exists>st'. for_each (diamond_point s ?h r) (diamond_coords sz s) st = Inr st' \<and> ?I st'"
  proof (rule for_each_inv [where I = ?I])
    show "?I st" using ok by simp
  next
    fix d t assume d: "d \<in> set (diamond_coords sz s)" and t: "?I t"
    obtain g rs where gr: "t = (g, rs)" by (cases t)
    obtain y x where yx: "d = (y, x)" by (cases d)
    note m = diamond_coords_mem [OF d s(1)]
    have okg: "grid_ok sz (g, rs)" using t gr by simp
    from diamond_point_put [OF okg, of y s x ?h r] m h yx
    obtain v rs' where run: "diamond_point s ?h r (y, x) (g, rs) = Inr (put g (y + ?h, x + ?h) v, rs')"
      by auto
    have tgt: "(y + ?h, x + ?h) \<in> set (diamond_targets sz s)"
      using d yx by (force simp: diamond_targets_def)
    have "cell (put g (y + ?h, x + ?h) v) c = cell g c" if "c \<in> C" for c
    proof (rule cell_put_other)
      show "c \<noteq> (y + ?h, x + ?h)" using C [OF that] tgt by auto
    qed (use C [OF that] m yx h in simp_all)
    with t gr have "\<forall>c \<in> C. cell (put g (y + ?h, x + ?h) v) c = cell (fst st) c" by simp
    with run grid_ok_put [OF okg] gr yx
    show "\<exists>s'. diamond_point s ?h r d t = Inr s' \<and> ?I s'" by simp
  qed
  then show ?thesis by (simp add: diamond_step_def sz)
qed

lemma square_step_keeps:
  assumes ok: "grid_ok sz st" and h: "2 * h < sz"
    and C: "\<And>c. c \<in> C \<Longrightarrow> 0 \<le> fst c \<and> 0 \<le> snd c \<and> c \<notin> set (square_coords sz s h)"
  shows "\<exists>st'. square_step s h r st = Inr st' \<and> grid_ok sz st'
           \<and> (\<forall>c \<in> C. cell (fst st') c = cell (fst st) c)"
proof -
  let ?I = "\<lambda>t. grid_ok sz t \<and> (\<forall>c \<in> C. cell (fst t) c = cell (fst st) c)"
  have sz: "size_g (fst st) = sz" using ok by (simp add: grid_ok_def)
  have "\<exists>st'. for_each (square_point h r) (square_coords sz s h) st = Inr st' \<and> ?I st'"
  proof (rule for_each_inv [where I = ?I])
    show "?I st" using ok by simp
  next
    fix d t assume d: "d \<in> set (square_coords sz s h)" and t: "?I t"
    obtain g rs where gr: "t = (g, rs)" by (cases t)
    obtain y x where yx: "d = (y, x)" by (cases d)
    from square_coords_mem [OF d] yx
    have m: "0 \<le> y" "y < sz" "0 \<le> x" "x < sz" "0 < h" by simp_all
    have some: "h \<le> y \<or> y + h < sz \<or> h \<le> x \<or> x + h < sz" using m h by linarith
    have okg: "grid_ok sz (g, rs)" using t gr by simp
    from square_point_put [OF okg m some, of r]
    obtain v rs' where run: "square_point h r (y, x) (g, rs) = Inr (put g (y, x) v, rs')"
      by auto
    have "cell (put g (y, x) v) c = cell g c" if "c \<in> C" for c
    proof (rule cell_put_other)
      show "c \<noteq> (y, x)" using C [OF that] d yx by auto
    qed (use C [OF that] m in simp_all)
    with t gr have "\<forall>c \<in> C. cell (put g (y, x) v) c = cell (fst st) c" by simp
    with run grid_ok_put [OF okg] gr yx
    show "\<exists>s'. square_point h r d t = Inr s' \<and> ?I s'" by simp
  qed
  then show ?thesis by (simp add: square_step_def sz)
qed

lemma main_loop_keeps_corners:
  assumes "grid_ok sz st" "2 ^ k dvd sz - 1" "0 < sz - 1"
  shows "\<exists>st'. main_loop (2 ^ k) r st = Inr (1, r / 2 ^ k, st') \<and> grid_ok sz st'
           \<and> (\<forall>c \<in> set (corner_cells sz). cell (fst st') c = cell (fst st) c)"
  using assms
proof (induction k arbitrary: r st)
  case 0
  then show ?case by (simp add: main_loop.simps)
next
  case (Suc k)
  let ?s = "(2::int) ^ Suc k"
  let ?C = "set (corner_cells sz)"
  have "(1::int) \<le> 2 ^ k" by simp
  then have s1: "?s > 1" unfolding power_Suc by linarith
  have half: "?s div 2 = 2 ^ k" by simp
  have le: "?s \<le> sz - 1" using Suc.prems(2,3) by (rule_tac zdvd_imp_le) simp_all
  have rng: "0 \<le> fst c \<and> 0 \<le> snd c" if "c \<in> ?C" for c
    using corner_in_range [OF that] Suc.prems(3) by simp
  have "\<exists>st'. diamond_step ?s (?s div 2) r st = Inr st' \<and> grid_ok sz st'
           \<and> (\<forall>c \<in> ?C. cell (fst st') c = cell (fst st) c)"
    using rng corner_not_diamond_target [OF _ Suc.prems(2) s1]
    by (intro diamond_step_keeps [OF Suc.prems(1,2) s1]) blast
  then obtain st1 where st1: "diamond_step ?s (2 ^ k) r st = Inr st1" "grid_ok sz st1"
    "\<forall>c \<in> ?C. cell (fst st1) c = cell (fst st) c" unfolding half by blast
  have lt: "2 * (2::int) ^ k < sz" using le by simp
  have "\<exists>st'. square_step ?s (2 ^ k) r st1 = Inr st' \<and> grid_ok sz st'
           \<and> (\<forall>c \<in> ?C. cell (fst st') c = cell (fst st1) c)"
    using rng corner_not_square_target [OF _ Suc.prems(2), of _ "2 ^ k"]
    by (intro square_step_keeps [OF st1(2) lt]) simp
  then obtain st2 where st2: "square_step ?s (2 ^ k) r st1 = Inr st2" "grid_ok sz st2"
    "\<forall>c \<in> ?C. cell (fst st2) c = cell (fst st1) c" by blast
  have dv: "(2::int) ^ k dvd sz - 1"
    using Suc.prems(2) by (metis dvd_mult_right power_Suc)
  from Suc.IH [OF st2(2) dv Suc.prems(3), of "r * (1 / 2)"]
  obtain st' where st': "main_loop (2 ^ k) (r * (1 / 2)) st2 = Inr (1, r * (1 / 2) / 2 ^ k, st')"
    "grid_ok sz st'" "\<forall>c \<in> ?C. cell (fst st') c = cell (fst st2) c" by auto
  have "main_loop ?s r st = main_loop (2 ^ k) (r * (1 / 2)) st2"
    using s1 by (subst main_loop.simps) (simp only: half st1 st2 if_True sum.case)
  with st' st1(3) st2(3) show ?case by simp
qed

lemma init_corners_cells:
  assumes ok: "grid_ok sz (g, rs)" and sz: "2 \<le> sz"
  shows "\<exists>g'. init_corners (g, rs) = Inr (g', rs\<lparr>consumed := consumed rs + 4\<rparr>)
           \<and> grid_ok sz (g', rs\<lparr>consumed := consumed rs + 4\<rparr>)
           \<and> map (cell g') (corner_cells sz) = map (\<lambda>i. draws rs (consumed rs + i)) [0..<4]"
proof -
  let ?n = "consumed rs"
  define g1 where "g1 = put g (0, 0) (draws rs ?n)"
  define g2 where "g2 = put g1 (0, sz - 1) (draws rs (?n + 1))"
  define g3 where "g3 = put g2 (sz - 1, 0) (draws rs (?n + 2))"
  define g4 where "g4 = put g3 (sz - 1, sz - 1) (draws rs (?n + 3))"
  have m1: "(- 1) mod sz = sz - 1" using sz by (simp add: zmod_minus1)
  have m0: "0 mod sz = 0" by simp
  have ok1: "grid_ok sz (g1, r1)" for r1 unfolding g1_def by (rule grid_ok_put [OF ok])
  have ok2: "grid_ok sz (g2, r2)" for r2 unfolding g2_def by (rule grid_ok_put [OF ok1])
  have ok3: "grid_ok sz (g3, r3)" for r3 unfolding g3_def by (rule grid_ok_put [OF ok2])
  have ok4: "grid_ok sz (g4, r4)" for r4 unfolding g4_def by (rule grid_ok_put [OF ok3])
  have b: "- sz \<le> 0" "0 < sz" "- sz \<le> - 1" "- 1 < sz" using sz by simp_all
  have s1: "init_corner (0, 0) (g, rs) = Inr (g1, rs\<lparr>consumed := Suc ?n\<rparr>)"
    using init_corner_put [OF ok b(1,2,1,2)] by (simp add: g1_def)
  have s2: "init_corner (0, - 1) (g1, rs\<lparr>consumed := Suc ?n\<rparr>)
      = Inr (g2, rs\<lparr>consumed := Suc (Suc ?n)\<rparr>)"
    using init_corner_put [OF ok1 b(1,2,3,4)] by (simp add: g2_def m1)
  have s3: "init_corner (- 1, 0) (g2, rs\<lparr>consumed := Suc (Suc ?n)\<rparr>)
      = Inr (g3, rs\<lparr>consumed := Suc (Suc (Suc ?n))\<rparr>)"
    using init_corner_put [OF ok2 b(3,4,1,2)] by (simp add: g3_def m1)
  have s4: "init_corner (- 1, - 1) (g3, rs\<lparr>consumed := Suc (Suc (Suc ?n))\<rparr>)
      = Inr (g4, rs\<lparr>consumed := Suc (Suc (Suc (Suc ?n)))\<rparr>)"
    using init_corner_put [OF ok3 b(3,4,3,4), of "rs\<lparr>consumed := Suc (Suc (Suc ?n))\<rparr>"]
    by (simp add: g4_def m1 numeral_3_eq_3)
  have run: "init_corners (g, rs) = Inr (g4, rs\<lparr>consumed := ?n + 4\<rparr>)"
    by (simp add: init_corners_def corner_indices_def s1 s2 s3 s4)
  have sh: "shape sz (heightmap g)" and sh1: "shape sz (heightmap g1)"
    and sh2: "shape sz (heightmap g2)" and sh3: "shape sz (heightmap g3)"
    using ok ok1 ok2 ok3 by (simp_all add: grid_ok_def)
  have ne: "sz - 1 \<noteq> 0" "0 \<le> sz - 1" "sz - 1 < sz" using sz by simp_all
  have c1: "cell g1 (0, 0) = draws rs ?n"
    unfolding g1_def using sz by (intro cell_put_same [OF sh]) simp_all
  have c2: "cell g2 (0, sz - 1) = draws rs (?n + 1)"
    unfolding g2_def using sz by (intro cell_put_same [OF sh1]) simp_all
  have c3: "cell g3 (sz - 1, 0) = draws rs (?n + 2)"
    unfolding g3_def using sz by (intro cell_put_same [OF sh2]) simp_all
  have c4: "cell g4 (sz - 1, sz - 1) = draws rs (?n + 3)"
    unfolding g4_def using sz by (intro cell_put_same [OF sh3]) simp_all
  have k2: "cell g2 (0, 0) = cell g1 (0, 0)"
    unfolding g2_def using ne by (intro cell_put_other) simp_all
  have k3: "cell g3 c = cell g2 c" if "c = (0, 0) \<or> c = (0, sz - 1)" for c
    unfolding g3_def using ne that by (intro cell_put_other) auto
  have k4: "cell g4 c = cell g3 c" if "c = (0, 0) \<or> c = (0, sz - 1) \<or> c = (sz - 1, 0)" for c
    unfolding g4_def using ne that by (intro cell_put_other) auto
  have "map (cell g4) (corner_cells sz) = [draws rs ?n, draws rs (?n + 1), draws rs (?n + 2),
      draws rs (?n + 3)]"
    by (simp add: corner_cells_def k4 k3 k2 c1 c2 c3 c4)
  also have "\<dots> = map (\<lambda>i. draws rs (?n + i)) [0..<4]"
    by (simp add: upt_rec numeral_eq_Suc)
  finally show ?thesis using run ok4 by blast
qed

subsection \<open>A run depends on the draws it consumes only\<close>

lemma same_draws_less: "same_draws k r r' \<Longrightarrow> j \<le> k \<Longrightarrow> same_draws j r r'"
  by (simp add: same_draws_def)

lemma same_state_less: "same_state k st st' \<Longrightarrow> j \<le> k \<Longrightarrow> same_state j st st'"
  by (auto simp: same_state_def intro: same_draws_less)











subsection \<open>Assignments keep the size\<close>










subsection \<open>The passes and the whole run\<close>







subsection \<open>The number of draws\<close>











section \<open>Construction\<close>




section \<open>Generation and normalisation\<close>

subsection \<open>Away from the flat case\<close>

text \<open>
  Elevations are real numbers here. For every size \<open>2^n + 1\<close> with \<open>n \<ge> 1\<close> and every state
  of the random module, construction succeeds and \<^verbatim>\<open>diamond_square\<close> completes on a
  \<open>size \<times> size\<close> array; and whenever that raw array is not flat (its minimum differs from
  its maximum), \<^verbatim>\<open>generate_coastline\<close> completes, and the array it leaves in
  \<^verbatim>\<open>self.heightmap\<close> (beside the image it returns) is \<open>size \<times> size\<close> with every value
  in \<open>[0, 1]\<close>.
\<close>

lemma generation_in_unit_when_not_flat:
  assumes "1 \<le> n"
  shows "\<exists>g0 g1 rs1.
    init (2 ^ n + 1) = Inr g0 \<and> diamond_square g0 rs = Inr (g1, rs1)
    \<and> shape (2 ^ n + 1) (heightmap g1)
    \<and> (np_min (heightmap g1) \<noteq> np_max (heightmap g1) \<longrightarrow>
         (\<exists>hm img. create_coastline_image (2 ^ n + 1) rs = Inr (hm, img, rs1)
            \<and> shape (2 ^ n + 1) hm \<and> list_all (list_all in_unit) hm))"
proof -
  let ?sz = "(2::int) ^ n + 1"
  have pos: "0 \<le> ?sz" "1 \<le> ?sz" by simp_all
  obtain g0 where g0: "init ?sz = Inr g0" using init_ok [OF pos(1)] by blast
  have ok0: "grid_ok ?sz (g0, rs)" by (rule init_grid_ok [OF pos(1) g0])
  from diamond_square_ok [OF ok0]
  obtain g1 rs1 where run: "diamond_square g0 rs = Inr (g1, rs1)"
    and ok1: "grid_ok ?sz (g1, rs1)" by blast
  define raw where "raw = heightmap g1"
  have sh: "shape ?sz raw" using ok1 by (simp add: grid_ok_def raw_def)
  have ne: "concat raw \<noteq> []" by (rule shape_concat_nonempty [OF sh pos(2)])
  define mn where "mn = Min (set (concat raw))"
  define mx where "mx = Max (set (concat raw))"
  define hm where "hm = map (map (\<lambda>v. np_divide (v - mn) (mx - mn))) raw"
  have norm: "normalize_grid raw = Inr hm"
    unfolding hm_def mn_def mx_def by (rule normalize_eq [OF ne])
  have "\<exists>hm img. create_coastline_image ?sz rs = Inr (hm, img, rs1)
            \<and> shape ?sz hm \<and> list_all (list_all in_unit) hm"
    if flat: "np_min raw \<noteq> np_max raw"
  proof -
    have diff: "mn \<noteq> mx"
      using flat unfolding mn_def mx_def np_min_Min [OF ne] np_max_Max [OF ne] by simp
    have cell: "in_unit (np_divide (v - mn) (mx - mn))" if "v \<in> set (concat raw)" for v
    proof (rule in_unit_divide [OF _ _ diff])
      show "mn \<le> v" unfolding mn_def using that by (intro Min_le) simp_all
      show "v \<le> mx" unfolding mx_def using that by (intro Max_ge) simp_all
    qed
    have unit: "in_unit c" if "row \<in> set hm" "c \<in> set row" for row c
    proof -
      from that(1) obtain r where r: "r \<in> set raw"
        "row = map (\<lambda>v. np_divide (v - mn) (mx - mn)) r" unfolding hm_def by auto
      from that(2) r(2) obtain v where v: "v \<in> set r" "c = np_divide (v - mn) (mx - mn)"
        by auto
      from r(1) v(1) have "v \<in> set (concat raw)" by auto
      with v(2) cell show ?thesis by simp
    qed
    from color_map_total [of hm "sea_level g1"] unit
    obtain img where img: "color_map (sea_level g1) hm = Inr img" by blast
    have "generate_coastline g0 rs = Inr (hm, img, rs1)"
      unfolding generate_coastline_def run using norm img by (simp add: raw_def)
    then have "create_coastline_image ?sz rs = Inr (hm, img, rs1)"
      by (simp add: create_coastline_image_def g0)
    moreover have "shape ?sz hm" unfolding hm_def by (rule shape_map [OF sh])
    moreover have "list_all (list_all in_unit) hm"
      unfolding list_all_iff using unit by blast
    ultimately show ?thesis by blast
  qed
  with g0 run sh show ?thesis unfolding raw_def by blast
qed

text \<open>
  In a run of \<^verbatim>\<open>generate_coastline\<close> that completes, the normalised array is the raw
  array (the one \<^verbatim>\<open>diamond_square\<close> leaves) under one map \<open>v \<mapsto> a * v + b\<close> with
  \<open>a > 0\<close>, and the order of any two cells is kept.
\<close>

lemma normalization_monotone_when_not_flat:
  assumes run: "diamond_square g rs = Inr (g1, rs1)"
    and gen: "generate_coastline g rs = Inr (hm', img, rs')"
    and c1: "y1 < length (heightmap g1)" "x1 < length (heightmap g1 ! y1)"
    and c2: "y2 < length (heightmap g1)" "x2 < length (heightmap g1 ! y2)"
    and le: "heightmap g1 ! y1 ! x1 \<le> heightmap g1 ! y2 ! x2"
  shows "(\<exists>a b. 0 < a \<and> hm' = map (map (\<lambda>v. Finite (a * v + b))) (heightmap g1))
         \<and> np_le (hm' ! y1 ! x1) (hm' ! y2 ! x2)"
proof -
  define raw where "raw = heightmap g1"
  define mn where "mn = Min (set (concat raw))"
  define mx where "mx = Max (set (concat raw))"
  have in1: "raw ! y1 ! x1 \<in> set (concat raw)"
    unfolding raw_def by (rule cell_in_concat [OF c1])
  then have ne: "concat raw \<noteq> []" by (metis empty_iff empty_set)
  have norm: "normalize_grid raw = Inr (map (map (\<lambda>v. np_divide (v - mn) (mx - mn))) raw)"
    unfolding mn_def mx_def by (rule normalize_eq [OF ne])
  from gen have "ebind (color_map (sea_level g1) (map (map (\<lambda>v. np_divide (v - mn) (mx - mn))) raw))
      (\<lambda>im. Inr (map (map (\<lambda>v. np_divide (v - mn) (mx - mn))) raw, im, rs1)) = Inr (hm', img, rs')"
    unfolding generate_coastline_def run using norm by (simp add: raw_def)
  then obtain im where hm': "hm' = map (map (\<lambda>v. np_divide (v - mn) (mx - mn))) raw"
    and col: "color_map (sea_level g1) hm' = Inr im"
    by (cases "color_map (sea_level g1) (map (map (\<lambda>v. np_divide (v - mn) (mx - mn))) raw)") auto
  have lo: "mn \<le> raw ! y1 ! x1" unfolding mn_def using in1 by (intro Min_le) simp_all
  have hi: "raw ! y1 ! x1 \<le> mx" unfolding mx_def using in1 by (intro Max_ge) simp_all
  have l1: "y1 < length raw" "x1 < length (raw ! y1)" using c1 by (simp_all add: raw_def)
  have l2: "y2 < length raw" "x2 < length (raw ! y2)" using c2 by (simp_all add: raw_def)
  have diff: "mn \<noteq> mx"
  proof
    assume eq: "mn = mx"
    have "np_divide (raw ! y1 ! x1 - mn) (mx - mn) = NaN"
      by (rule np_divide_flat [OF lo hi eq])
    moreover have "hm' ! y1 ! x1 = np_divide (raw ! y1 ! x1 - mn) (mx - mn)"
      using l1 by (simp add: hm')
    moreover have "hm' ! y1 \<in> set hm'" using l1 by (simp add: hm')
    moreover have "hm' ! y1 ! x1 \<in> set (hm' ! y1)" using l1 by (simp add: hm')
    ultimately show False using color_map_no_NaN [OF col] by metis
  qed
  with lo hi have d: "0 < mx - mn" by linarith
  define a where "a = 1 / (mx - mn)"
  define b where "b = - mn / (mx - mn)"
  have a: "0 < a" using d by (simp add: a_def)
  have f: "np_divide (v - mn) (mx - mn) = Finite (a * v + b)" for v
    using d by (simp add: np_divide_def a_def b_def diff_divide_distrib)
  have affine: "hm' = map (map (\<lambda>v. Finite (a * v + b))) raw"
    unfolding hm' f ..
  have v1: "hm' ! y1 ! x1 = Finite (a * (raw ! y1 ! x1) + b)" using l1 by (simp add: affine)
  have v2: "hm' ! y2 ! x2 = Finite (a * (raw ! y2 ! x2) + b)" using l2 by (simp add: affine)
  have "a * (raw ! y1 ! x1) + b \<le> a * (raw ! y2 ! x2) + b"
    using a le by (simp add: raw_def)
  then have "np_le (hm' ! y1 ! x1) (hm' ! y2 ! x2)" by (simp add: v1 v2)
  with a affine show ?thesis unfolding raw_def by blast
qed

subsection \<open>The flat case\<close>

text \<open>
  C2. Generation is to return a \<open>size \<times> size\<close> array with every value in \<open>[0, 1]\<close>, for
  every size \<open>2^n + 1\<close> with \<open>n \<ge> 1\<close>. With size \<open>3 = 2^1 + 1\<close> and every draw equal to 0.5
  the code does not: the raw array is flat, the array the normalisation computes holds
  \<^verbatim>\<open>nan\<close> in each of its nine cells, none of them in \<open>[0, 1]\<close>, and the run ends with
  \<^verbatim>\<open>ValueError\<close> instead of a result.
\<close>

theorem generation_outside_unit_interval_on_flat:
  "init (2 ^ 1 + 1) = Inr gen3
   \<and> diamond_square gen3 flat_rand =
       Inr (gen3\<lparr>heightmap := [[1 / 2, 1 / 2, 1 / 2], [1 / 2, 1 / 2, 1 / 2], [1 / 2, 1 / 2, 1 / 2]]\<rparr>,
            flat_rand\<lparr>consumed := 9\<rparr>)
   \<and> normalize_grid [[1 / 2, 1 / 2, 1 / 2], [1 / 2, 1 / 2, 1 / 2], [1 / 2, 1 / 2, 1 / 2]] =
       Inr [[NaN, NaN, NaN], [NaN, NaN, NaN], [NaN, NaN, NaN]]
   \<and> \<not> list_ex (list_ex in_unit) [[NaN, NaN, NaN], [NaN, NaN, NaN], [NaN, NaN, NaN]]
   \<and> create_coastline_image (2 ^ 1 + 1) flat_rand = Inl ValueError"
  using flat_generate by (simp add: flat_raw flat_normalize init_3 create_3)

text \<open>
  C3. When the raw array is flat, the normalisation divides by zero. With size 3 and
  every draw equal to 0.5 every cell of the raw array is 0.5, so \<open>max - min = 0\<close>; the
  division is carried out and yields \<^verbatim>\<open>nan\<close> in every cell, and the colour mapping
  then raises \<^verbatim>\<open>ValueError\<close> at \<^verbatim>\<open>int(nan)\<close>. No check of \<open>max = min\<close> exists.
\<close>

theorem flat_surface_divides_by_zero:
  "diamond_square gen3 flat_rand =
     Inr (gen3\<lparr>heightmap := [[1 / 2, 1 / 2, 1 / 2], [1 / 2, 1 / 2, 1 / 2], [1 / 2, 1 / 2, 1 / 2]]\<rparr>,
          flat_rand\<lparr>consumed := 9\<rparr>)
   \<and> np_max [[1 / 2, 1 / 2, 1 / 2], [1 / 2, 1 / 2, 1 / 2], [1 / 2, 1 / 2, 1 / 2]] = Inr (1 / 2)
   \<and> np_min [[1 / 2, 1 / 2, 1 / 2], [1 / 2, 1 / 2, 1 / 2], [1 / 2, 1 / 2, 1 / 2]] = Inr (1 / 2)
   \<and> np_divide (1 / 2 - 1 / 2) (1 / 2 - 1 / 2) = NaN
   \<and> normalize_grid [[1 / 2, 1 / 2, 1 / 2], [1 / 2, 1 / 2, 1 / 2], [1 / 2, 1 / 2, 1 / 2]] =
       Inr [[NaN, NaN, NaN], [NaN, NaN, NaN], [NaN, NaN, NaN]]
   \<and> init 3 = Inr gen3
   \<and> generate_coastline gen3 flat_rand = Inl ValueError"
  by (simp add: flat_raw flat_normalize init_3 flat_generate np_divide_def np_min_def np_max_def)

text \<open>
  C8. Normalisation is to keep the order of any two cells, as a monotonic affine rescale
  does. With size 3 and every draw equal to 0.5 the code does not: the raw values of the
  corners \<open>(0, 0)\<close> and \<open>(2, 2)\<close> are both 0.5, so the first is at most the second, but
  their normalised values are \<^verbatim>\<open>nan\<close>, and \<^verbatim>\<open>nan <= nan\<close> is false; the normalised
  array is the image of the raw one under no map \<open>v \<mapsto> a * v + b\<close> with \<open>a > 0\<close>; and the
  run ends with \<^verbatim>\<open>ValueError\<close>.
\<close>

theorem normalization_loses_order_on_flat:
  "diamond_square gen3 flat_rand =
     Inr (gen3\<lparr>heightmap := [[1 / 2, 1 / 2, 1 / 2], [1 / 2, 1 / 2, 1 / 2], [1 / 2, 1 / 2, 1 / 2]]\<rparr>,
          flat_rand\<lparr>consumed := 9\<rparr>)
   \<and> [[1 / 2, 1 / 2, 1 / 2], [1 / 2, 1 / 2, 1 / 2], [1 / 2, 1 / 2, 1 / 2]] ! 0 ! 0
       \<le> ([[1 / 2, 1 / 2, 1 / 2], [1 / 2, 1 / 2, 1 / 2], [1 / 2, 1 / 2, 1 / 2]] ! 2 ! 2 :: real)
   \<and> normalize_grid [[1 / 2, 1 / 2, 1 / 2], [1 / 2, 1 / 2, 1 / 2], [1 / 2, 1 / 2, 1 / 2]] =
       Inr [[NaN, NaN, NaN], [NaN, NaN, NaN], [NaN, NaN, NaN]]
   \<and> \<not> np_le ([[NaN, NaN, NaN], [NaN, NaN, NaN], [NaN, NaN, NaN]] ! 0 ! 0)
              ([[NaN, NaN, NaN], [NaN, NaN, NaN], [NaN, NaN, NaN]] ! 2 ! 2)
   \<and> \<not> (\<exists>a b. 0 < a \<and> [[NaN, NaN, NaN], [NaN, NaN, NaN], [NaN, NaN, NaN]] =
         map (map (\<lambda>v. Finite (a * v + b))) [[1 / 2, 1 / 2, 1 / 2], [1 / 2, 1 / 2, 1 / 2], [1 / 2, 1 / 2, 1 / 2]])
   \<and> generate_coastline gen3 flat_rand = Inl ValueError"
  using flat_generate by (simp add: flat_raw flat_normalize)

section \<open>The random offset\<close>




section \<open>The main loop\<close>



section \<open>Neighbours in the square step\<close>

text \<open>
  C6. On a grid of side \<open>sz\<close>, for a point \<open>(y, x)\<close> of the lattice of spacing
  \<^verbatim>\<open>half_step\<close> (the points the square step works on), the four bounds checks of
  the square step add up exactly the neighbours that lie in the grid: 2 of them at a
  corner of the grid (at \<open>(0, 0)\<close> the ones below and to the right), 3 on an edge away
  from the corners, 4 in the interior. None of the three cases is an error: the square
  step divides that sum by that number of neighbours, adds the random offset of the next
  draw, and assigns the result to the cell \<open>(y, x)\<close>, leaving every other cell as it was.
\<close>

theorem square_neighbor_count:
  assumes ok: "grid_ok sz (g, rs)" and sz: "1 < sz"
    and h: "0 < h" "h dvd sz - 1" "h dvd y" "h dvd x"
    and b: "0 \<le> y" "y \<le> sz - 1" "0 \<le> x" "x \<le> sz - 1"
  shows "\<exists>a k. square_neighbors g h y x = Inr (a, k)
    \<and> a = 0 + (if y \<noteq> 0 then heightmap g ! nat (y - h) ! nat x else 0)
             + (if y \<noteq> sz - 1 then heightmap g ! nat (y + h) ! nat x else 0)
             + (if x \<noteq> 0 then heightmap g ! nat y ! nat (x - h) else 0)
             + (if x \<noteq> sz - 1 then heightmap g ! nat y ! nat (x + h) else 0)
    \<and> ((y = 0 \<or> y = sz - 1) \<and> (x = 0 \<or> x = sz - 1) \<longrightarrow> k = 2)
    \<and> ((y = 0 \<or> y = sz - 1) \<and> 0 < x \<and> x < sz - 1 \<longrightarrow> k = 3)
    \<and> (0 < y \<and> y < sz - 1 \<and> (x = 0 \<or> x = sz - 1) \<longrightarrow> k = 3)
    \<and> (0 < y \<and> y < sz - 1 \<and> 0 < x \<and> x < sz - 1 \<longrightarrow> k = 4)
    \<and> (k = 2 \<or> k = 3 \<or> k = 4)
    \<and> square_point h r (y, x) (g, rs) =
        Inr (put g (y, x) (a / real_of_int k + (draws rs (consumed rs) - 1 / 2) * r * roughness g),
             rs\<lparr>consumed := Suc (consumed rs)\<rparr>)
    \<and> (\<exists>st'. square_point h r (y, x) (g, rs) = Inr st')"
proof -
  from square_neighbors_lattice [OF assms, of r]
  obtain a k where eq: "square_neighbors g h y x = Inr (a, k)"
    and a: "a = 0 + (if y \<noteq> 0 then heightmap g ! nat (y - h) ! nat x else 0)
             + (if y \<noteq> sz - 1 then heightmap g ! nat (y + h) ! nat x else 0)
             + (if x \<noteq> 0 then heightmap g ! nat y ! nat (x - h) else 0)
             + (if x \<noteq> sz - 1 then heightmap g ! nat y ! nat (x + h) else 0)"
    and k2: "(y = 0 \<or> y = sz - 1) \<and> (x = 0 \<or> x = sz - 1) \<longrightarrow> k = 2"
    and k3: "(y = 0 \<or> y = sz - 1) \<and> 0 < x \<and> x < sz - 1 \<longrightarrow> k = 3"
    and k3': "0 < y \<and> y < sz - 1 \<and> (x = 0 \<or> x = sz - 1) \<longrightarrow> k = 3"
    and k4: "0 < y \<and> y < sz - 1 \<and> 0 < x \<and> x < sz - 1 \<longrightarrow> k = 4"
    by blast
  have cy: "(y = 0 \<or> y = sz - 1) \<or> (0 < y \<and> y < sz - 1)" using b(1,2) by linarith
  have cx: "(x = 0 \<or> x = sz - 1) \<or> (0 < x \<and> x < sz - 1)" using b(3,4) by linarith
  from cy cx k2 k3 k3' k4 have k: "k = 2 \<or> k = 3 \<or> k = 4" by blast
  then have k0: "k \<noteq> 0" by auto
  have b': "y < sz" "x < sz" using b(2,4) by simp_all
  have p: "square_point h r (y, x) (g, rs) =
        Inr (put g (y, x) (a / real_of_int k + (draws rs (consumed rs) - 1 / 2) * r * roughness g),
             rs\<lparr>consumed := Suc (consumed rs)\<rparr>)"
    by (rule square_point_value [OF ok b(1) b'(1) b(3) b'(2) eq k0])
  then have run: "\<exists>st'. square_point h r (y, x) (g, rs) = Inr st'" by simp
  from eq a k2 k3 k3' k4 k p run show ?thesis by blast
qed

theorem square_neighbor_count_witness:
  "grid_ok 5 (ramp5, low_rand) \<and> (1::int) dvd 5 - 1
   \<and> square_neighbors ramp5 1 0 0 = Inr (8, 2)
   \<and> square_point 1 1 (0, 0) (ramp5, low_rand) =
       Inr (ramp5\<lparr>heightmap := [[37 / 10, 2, 3, 4, 5], [6, 7, 8, 9, 10], [11, 12, 13, 14, 15],
                                 [16, 17, 18, 19, 20], [21, 22, 23, 24, 25]]\<rparr>,
            low_rand\<lparr>consumed := 1\<rparr>)
   \<and> square_neighbors ramp5 1 0 1 = Inr (11, 3)
   \<and> square_point 1 1 (0, 1) (ramp5, low_rand) =
       Inr (ramp5\<lparr>heightmap := [[1, 101 / 30, 3, 4, 5], [6, 7, 8, 9, 10], [11, 12, 13, 14, 15],
                                 [16, 17, 18, 19, 20], [21, 22, 23, 24, 25]]\<rparr>,
            low_rand\<lparr>consumed := 1\<rparr>)
   \<and> square_neighbors ramp5 1 3 4 = Inr (59, 3)
   \<and> square_neighbors ramp5 1 1 2 = Inr (32, 4)
   \<and> square_point 1 1 (1, 2) (ramp5, low_rand) =
       Inr (ramp5\<lparr>heightmap := [[1, 2, 3, 4, 5], [6, 7, 77 / 10, 9, 10], [11, 12, 13, 14, 15],
                                 [16, 17, 18, 19, 20], [21, 22, 23, 24, 25]]\<rparr>,
            low_rand\<lparr>consumed := 1\<rparr>)"
proof -
  have ok: "grid_ok 5 (ramp5, low_rand)" by (simp add: grid_ok_def shape_def ramp5_def)
  have c: "square_neighbors ramp5 1 0 0 = Inr (8, 2)
    \<and> square_point 1 1 (0, 0) (ramp5, low_rand) =
       Inr (ramp5\<lparr>heightmap := [[37 / 10, 2, 3, 4, 5], [6, 7, 8, 9, 10], [11, 12, 13, 14, 15],
                                 [16, 17, 18, 19, 20], [21, 22, 23, 24, 25]]\<rparr>,
            low_rand\<lparr>consumed := 1\<rparr>)"
    using square_neighbor_count [OF ok, of 1 0 0 1]
    by (auto simp: put_def ramp5_def low_rand_def)
  have e: "square_neighbors ramp5 1 0 1 = Inr (11, 3)
    \<and> square_point 1 1 (0, 1) (ramp5, low_rand) =
       Inr (ramp5\<lparr>heightmap := [[1, 101 / 30, 3, 4, 5], [6, 7, 8, 9, 10], [11, 12, 13, 14, 15],
                                 [16, 17, 18, 19, 20], [21, 22, 23, 24, 25]]\<rparr>,
            low_rand\<lparr>consumed := 1\<rparr>)"
    using square_neighbor_count [OF ok, of 1 0 1 1]
    by (auto simp: put_def ramp5_def low_rand_def)
  have e': "square_neighbors ramp5 1 3 4 = Inr (59, 3)"
    using square_neighbor_count [OF ok, of 1 3 4 1]
    by (auto simp: ramp5_def)
  have i: "square_neighbors ramp5 1 1 2 = Inr (32, 4)
    \<and> square_point 1 1 (1, 2) (ramp5, low_rand) =
       Inr (ramp5\<lparr>heightmap := [[1, 2, 3, 4, 5], [6, 7, 77 / 10, 9, 10], [11, 12, 13, 14, 15],
                                 [16, 17, 18, 19, 20], [21, 22, 23, 24, 25]]\<rparr>,
            low_rand\<lparr>consumed := 1\<rparr>)"
    using square_neighbor_count [OF ok, of 1 1 2 1]
    by (auto simp: put_def ramp5_def low_rand_def)
  from ok c e e' i show ?thesis by simp
qed

text \<open>
  C10. For every grid of side \<open>2^n + 1\<close>, in every pass of the main loop, every point
  that the square step visits has at least three of its four neighbours inside the grid:
  the count is never zero, \<^verbatim>\<open>avg /= count\<close> never divides by zero, the point is
  assigned, and the whole of \<^verbatim>\<open>diamond_square\<close> completes without raising.
\<close>

theorem square_step_count_at_least_three:
  assumes ok: "grid_ok (2 ^ n + 1) (g, rs)"
    and s: "s \<in> set (step_sizes (2 ^ n + 1 - 1))"
    and c: "c \<in> set (square_coords (2 ^ n + 1) s (s div 2))"
  shows "(\<exists>a k. square_neighbors g (s div 2) (fst c) (snd c) = Inr (a, k) \<and> 3 \<le> k)
    \<and> (\<exists>st'. square_point (s div 2) r c (g, rs) = Inr st')
    \<and> (\<exists>g1 rs1. diamond_square g rs = Inr (g1, rs1))"
proof -
  let ?sz = "(2::int) ^ n + 1"
  obtain y x where yx: "c = (y, x)" by (cases c)
  from s obtain j where j: "j < n" "s = 2 * 2 ^ j"
    using step_sizes_pow2_mem [of s n] by auto
  define h :: int where "h = 2 ^ j"
  have half: "s div 2 = h" and sh: "s = 2 * h" and hpos: "0 < h" using j by (simp_all add: h_def)
  have "Suc j \<le> n" using j(1) by simp
  then have "(2::int) ^ Suc j dvd 2 ^ n" by (rule le_imp_power_dvd)
  then have sd: "s dvd ?sz - 1" using j(2) by simp
  have hd: "h dvd ?sz - 1" using sd sh by (metis dvd_mult_right)
  have big: "1 < ?sz" by (smt (verit) zero_less_power)
  from square_coords_mem [OF c [unfolded half]] yx
  have b: "0 \<le> y" "y \<le> ?sz - 1" "0 \<le> x" "x \<le> ?sz - 1" by simp_all
  from square_coords_lattice [OF c [unfolded half] sh] yx
  have lat: "h dvd y" "h dvd x" "\<not> (s dvd y \<and> s dvd x)" by simp_all
  from square_neighbors_lattice [OF ok big hpos hd lat(1,2) b, of r]
  obtain a k where eq: "square_neighbors g h y x = Inr (a, k)"
    and k2: "(y = 0 \<or> y = ?sz - 1) \<and> (x = 0 \<or> x = ?sz - 1) \<longrightarrow> k = 2"
    and k3: "(y = 0 \<or> y = ?sz - 1) \<and> 0 < x \<and> x < ?sz - 1 \<longrightarrow> k = 3"
    and k3': "0 < y \<and> y < ?sz - 1 \<and> (x = 0 \<or> x = ?sz - 1) \<longrightarrow> k = 3"
    and k4: "0 < y \<and> y < ?sz - 1 \<and> 0 < x \<and> x < ?sz - 1 \<longrightarrow> k = 4"
    and run: "\<exists>st'. square_point h r (y, x) (g, rs) = Inr st'"
    by blast
  have by': "s dvd y" if "y = 0 \<or> y = ?sz - 1" using that sd by auto
  have bx': "s dvd x" if "x = 0 \<or> x = ?sz - 1" using that sd by auto
  have "\<not> ((y = 0 \<or> y = ?sz - 1) \<and> (x = 0 \<or> x = ?sz - 1))"
    using lat(3) by' bx' by blast
  with k3 k3' k4 b have "3 \<le> k" by (smt (verit))
  with eq have "\<exists>a k. square_neighbors g (s div 2) (fst c) (snd c) = Inr (a, k) \<and> 3 \<le> k"
    unfolding half yx by auto
  moreover have "\<exists>st'. square_point (s div 2) r c (g, rs) = Inr st'"
    using run unfolding half yx .
  moreover have "\<exists>g1 rs1. diamond_square g rs = Inr (g1, rs1)"
    using diamond_square_ok [OF ok] by blast
  ultimately show ?thesis by blast
qed

theorem square_step_count_at_least_three_witness:
  "grid_ok (2 ^ 1 + 1) (gen3, low_rand)
   \<and> 2 \<in> set (step_sizes (2 ^ 1 + 1 - 1))
   \<and> (0, 1) \<in> set (square_coords (2 ^ 1 + 1) 2 (2 div 2))
   \<and> square_neighbors gen3 (2 div 2) 0 1 = Inr (0, 3)
   \<and> (\<exists>a k. square_neighbors gen3 (2 div 2) (fst (0, 1)) (snd (0, 1)) = Inr (a, k) \<and> 3 \<le> k)
   \<and> (\<exists>st'. square_point (2 div 2) 1 (0, 1) (gen3, low_rand) = Inr st')"
proof -
  have ok: "grid_ok (2 ^ 1 + 1) (gen3, low_rand)"
    by (simp add: grid_ok_def shape_def gen3_def)
  have s: "2 \<in> set (step_sizes (2 ^ 1 + 1 - 1))" by (simp add: step_sizes.simps)
  have c: "(0, 1) \<in> set (square_coords (2 ^ 1 + 1) 2 (2 div 2))"
    by (simp add: square_coords_def py_range.simps)
  have e: "square_neighbors gen3 (2 div 2) 0 1 = Inr (0, 3)"
    by (simp add: square_neighbors_def add_neighbor_def getitem_def np_index_def gen3_def)
  note t = square_step_count_at_least_three [OF ok s c, of 1]
  from t have t1: "\<exists>a k. square_neighbors gen3 (2 div 2) (fst (0, 1)) (snd (0, 1)) = Inr (a, k)
      \<and> 3 \<le> k" by simp
  from t have t2: "\<exists>st'. square_point (2 div 2) 1 (0, 1) (gen3, low_rand) = Inr st'"
    by simp
  from ok s c e t1 t2 show ?thesis by simp
qed

section \<open>The corners\<close>

text \<open>
  C5. On a grid of side \<open>sz = 2^n + 1\<close>, \<open>n \<ge> 1\<close>, the four assignments that open
  \<^verbatim>\<open>diamond_square\<close> go to the four corner cells \<open>(0, 0)\<close>, \<open>(0, sz - 1)\<close>,
  \<open>(sz - 1, 0)\<close>, \<open>(sz - 1, sz - 1)\<close>, which are four different cells: each corner is
  written once, before the first pass. In every pass of the main loop, no cell that the
  diamond step assigns and no cell that the square step assigns is a corner (each step of
  a pass assigns its one target cell and no other: lemmas \<open>diamond_point_put\<close> and
  \<open>square_point_put\<close>). So when \<^verbatim>\<open>diamond_square\<close> returns, the corners still hold
  the first four draws, in the order of the assignments.
\<close>

theorem corners_written_once:
  assumes "1 \<le> n"
  shows "map (\<lambda>(y, x). (y mod (2 ^ n + 1), x mod (2 ^ n + 1))) corner_indices
           = corner_cells (2 ^ n + 1)
    \<and> distinct (corner_cells (2 ^ n + 1))
    \<and> (\<forall>s \<in> set (step_sizes (2 ^ n + 1 - 1)). \<forall>c \<in> set (corner_cells (2 ^ n + 1)).
          c \<notin> set (diamond_targets (2 ^ n + 1) s)
          \<and> c \<notin> set (square_coords (2 ^ n + 1) s (s div 2)))
    \<and> (\<exists>g0 g1 rs1. init (2 ^ n + 1) = Inr g0 \<and> diamond_square g0 rs = Inr (g1, rs1)
          \<and> map (cell g1) (corner_cells (2 ^ n + 1))
              = map (\<lambda>i. draws rs (consumed rs + i)) [0..<4])"
proof -
  let ?sz = "(2::int) ^ n + 1"
  have "(2::int) ^ 1 \<le> 2 ^ n" using assms by (intro power_increasing) simp_all
  then have big: "2 \<le> ?sz" "0 < ?sz - 1" "0 \<le> ?sz" by simp_all
  have m1: "(- 1) mod ?sz = ?sz - 1" using big by (simp add: zmod_minus1)
  have a: "map (\<lambda>(y, x). (y mod ?sz, x mod ?sz)) corner_indices = corner_cells ?sz"
    by (simp add: corner_indices_def corner_cells_def m1)
  have b: "distinct (corner_cells ?sz)"
    using big by (simp add: corner_cells_def)
  have c: "c \<notin> set (diamond_targets ?sz s) \<and> c \<notin> set (square_coords ?sz s (s div 2))"
    if s: "s \<in> set (step_sizes (?sz - 1))" and c: "c \<in> set (corner_cells ?sz)" for s c
  proof -
    from s obtain j where j: "j < n" "s = 2 * 2 ^ j"
      using step_sizes_pow2_mem [of s n] by auto
    have "Suc j \<le> n" using j(1) by simp
    then have "(2::int) ^ Suc j dvd 2 ^ n" by (rule le_imp_power_dvd)
    then have sd: "s dvd ?sz - 1" using j(2) by simp
    have "(1::int) \<le> 2 ^ j" by simp
    then have s1: "1 < s" using j(2) by linarith
    have sh: "s = 2 * (s div 2)" using j(2) by simp
    from corner_not_diamond_target [OF c sd s1] corner_not_square_target [OF c sd sh]
    show ?thesis by simp
  qed
  have d: "\<exists>g0 g1 rs1. init ?sz = Inr g0 \<and> diamond_square g0 rs = Inr (g1, rs1)
          \<and> map (cell g1) (corner_cells ?sz) = map (\<lambda>i. draws rs (consumed rs + i)) [0..<4]"
  proof -
    obtain g0 where g0: "init ?sz = Inr g0" using init_ok [OF big(3)] by blast
    have ok0: "grid_ok ?sz (g0, rs)" by (rule init_grid_ok [OF big(3) g0])
    have sz: "size_g g0 = ?sz" using ok0 by (simp add: grid_ok_def)
    let ?rs4 = "rs\<lparr>consumed := consumed rs + 4\<rparr>"
    from init_corners_cells [OF ok0 big(1)]
    obtain g' where ic: "init_corners (g0, rs) = Inr (g', ?rs4)"
      and ok': "grid_ok ?sz (g', ?rs4)"
      and cs: "map (cell g') (corner_cells ?sz) = map (\<lambda>i. draws rs (consumed rs + i)) [0..<4]"
      by blast
    have "\<exists>st'. main_loop (2 ^ n) 1 (g', ?rs4) = Inr (1, 1 / 2 ^ n, st') \<and> grid_ok ?sz st'
           \<and> (\<forall>c \<in> set (corner_cells ?sz). cell (fst st') c = cell (fst (g', ?rs4)) c)"
      using ok' big(2) by (intro main_loop_keeps_corners) simp_all
    then obtain st' where ml: "main_loop (2 ^ n) 1 (g', ?rs4) = Inr (1, 1 / 2 ^ n, st')"
      and keep: "\<forall>c \<in> set (corner_cells ?sz). cell (fst st') c = cell g' c"
      by auto
    obtain g1 rs1 where p: "st' = (g1, rs1)" by (cases st')
    have run: "diamond_square g0 rs = Inr (g1, rs1)"
      by (simp add: diamond_square_def sz ic ml p)
    have "map (cell g1) (corner_cells ?sz) = map (cell g') (corner_cells ?sz)"
      using keep p by simp
    with cs have cells: "map (cell g1) (corner_cells ?sz)
        = map (\<lambda>i. draws rs (consumed rs + i)) [0..<4]" by simp
    from g0 run cells show ?thesis by blast
  qed
  from a b c d show ?thesis by blast
qed

theorem corners_written_once_witness:
  "(1::nat) \<le> 1
   \<and> corner_cells (2 ^ 1 + 1) = [(0, 0), (0, 2), (2, 0), (2, 2)]
   \<and> step_sizes (2 ^ 1 + 1 - 1) = [2]
   \<and> diamond_targets (2 ^ 1 + 1) 2 = [(1, 1)]
   \<and> square_coords (2 ^ 1 + 1) 2 (2 div 2) = [(0, 1), (1, 0), (1, 2), (2, 1)]
   \<and> map (cell (gen3\<lparr>heightmap :=
          [[0, 7 / 24, 1 / 2], [7 / 24, 3 / 8, 11 / 24], [1 / 2, 11 / 24, 1 / 2]]\<rparr>))
        (corner_cells (2 ^ 1 + 1))
      = map (\<lambda>i. draws low_rand (consumed low_rand + i)) [0..<4]"
proof -
  have cc: "corner_cells (2 ^ 1 + 1) = [(0, 0), (0, 2), (2, 0), (2, 2)]"
    by (simp add: corner_cells_def)
  have ss: "step_sizes (2 ^ 1 + 1 - 1) = [2]" by (simp add: step_sizes.simps)
  have dt: "diamond_targets (2 ^ 1 + 1) 2 = [(1, 1)]"
    by (simp add: diamond_targets_def diamond_coords_def py_range.simps)
  have sc: "square_coords (2 ^ 1 + 1) 2 (2 div 2) = [(0, 1), (1, 0), (1, 2), (2, 1)]"
    by (simp add: square_coords_def py_range.simps)
  from corners_written_once [of 1 low_rand]
  obtain g0 g1 rs1 where g0: "init (2 ^ 1 + 1) = Inr g0"
    and run: "diamond_square g0 low_rand = Inr (g1, rs1)"
    and cells: "map (cell g1) (corner_cells (2 ^ 1 + 1))
        = map (\<lambda>i. draws low_rand (consumed low_rand + i)) [0..<4]"
    by auto
  from g0 have "g0 = gen3" by (simp add: init_3)
  with run low_raw have "g1 = gen3\<lparr>heightmap :=
      [[0, 7 / 24, 1 / 2], [7 / 24, 3 / 8, 11 / 24], [1 / 2, 11 / 24, 1 / 2]]\<rparr>" by simp
  with cells cc ss dt sc show ?thesis by simp
qed

section \<open>Determinism\<close>




end
